theory Spec2Isabelle
  imports Main "HOL-Library.Sublist" "HOL-Library.Multiset" "HOL-Library.AList"
begin

unbundle bit_operations_syntax

section \<open>Go strings\<close>

text \<open>
  A Go string is a sequence of bytes; \<^typ>\<open>string\<close> (a list of 8-bit characters) is
  the same thing. The functions of package \<^verbatim>\<open>strings\<close> that the program calls are
  written out here.
\<close>

definition HasPrefix :: "string \<Rightarrow> string \<Rightarrow> bool" where
  "HasPrefix s p = prefix p s"

definition HasSuffix :: "string \<Rightarrow> string \<Rightarrow> bool" where
  "HasSuffix s p = suffix p s"

definition TrimPrefix :: "string \<Rightarrow> string \<Rightarrow> string" where
  "TrimPrefix s p = (if HasPrefix s p then drop (length p) s else s)"

definition TrimSuffix :: "string \<Rightarrow> string \<Rightarrow> string" where
  "TrimSuffix s p = (if HasSuffix s p then take (length s - length p) s else s)"

text \<open>
  \<^verbatim>\<open>strings.Split(s, sep)\<close> for a non-empty separator: the pieces between the
  non-overlapping occurrences of \<open>sep\<close>, found from the left. The program splits
  on \<^verbatim>\<open>"."\<close> and on \<^verbatim>\<open>"**"\<close> only; the empty separator (for which Go explodes the
  string into UTF-8 sequences) is not modelled and yields the whole string.
\<close>

function Split_from :: "string \<Rightarrow> string \<Rightarrow> string \<Rightarrow> string list" where
  "Split_from sep acc [] = [rev acc]"
| "Split_from sep acc (c # cs) =
     (if sep \<noteq> [] \<and> prefix sep (c # cs)
      then rev acc # Split_from sep [] (drop (length sep) (c # cs))
      else Split_from sep (c # acc) cs)"
  by pat_completeness auto
termination
  by (relation "measure (\<lambda>(sep, acc, s). length s)") (auto simp: neq_Nil_conv)

definition Split :: "string \<Rightarrow> string \<Rightarrow> string list" where
  "Split s sep = Split_from sep [] s"

text \<open>
  \<^verbatim>\<open>strings.Count(s, sep)\<close> for a non-empty separator: the number of non-overlapping
  occurrences of \<open>sep\<close> in \<open>s\<close>, counted from the left.
\<close>

function Count :: "string \<Rightarrow> string \<Rightarrow> nat" where
  "Count [] sep = 0"
| "Count (c # cs) sep =
     (if sep \<noteq> [] \<and> prefix sep (c # cs)
      then Suc (Count (drop (length sep) (c # cs)) sep)
      else Count cs sep)"
  by pat_completeness auto
termination
  by (relation "measure (\<lambda>(s, sep). length s)") (auto simp: neq_Nil_conv)

text \<open>\<^verbatim>\<open>strings.Contains\<close>: \<open>sub\<close> occurs somewhere in \<open>s\<close>.\<close>

fun Contains :: "string \<Rightarrow> string \<Rightarrow> bool" where
  "Contains [] sub = (sub = [])"
| "Contains (c # cs) sub = (prefix sub (c # cs) \<or> Contains cs sub)"

text \<open>
  \<^verbatim>\<open>strings.TrimSpace\<close> removes leading and trailing Unicode white space. The white
  space code points are the six ASCII ones and U+0085, U+00A0, U+1680, U+2000..U+200A,
  U+2028, U+2029, U+202F, U+205F, U+3000; the latter are listed by their UTF-8
  encodings. A byte sequence that is not one of these encodings is not white space
  (an invalid sequence decodes to U+FFFD).
\<close>

definition whiteSpace :: "string list" where
  "whiteSpace =
     [[CHR 0x09], [CHR 0x0A], [CHR 0x0B], [CHR 0x0C], [CHR 0x0D], [CHR 0x20],
      [CHR 0xC2, CHR 0x85], [CHR 0xC2, CHR 0xA0],
      [CHR 0xE1, CHR 0x9A, CHR 0x80],
      [CHR 0xE2, CHR 0x80, CHR 0x80], [CHR 0xE2, CHR 0x80, CHR 0x81],
      [CHR 0xE2, CHR 0x80, CHR 0x82], [CHR 0xE2, CHR 0x80, CHR 0x83],
      [CHR 0xE2, CHR 0x80, CHR 0x84], [CHR 0xE2, CHR 0x80, CHR 0x85],
      [CHR 0xE2, CHR 0x80, CHR 0x86], [CHR 0xE2, CHR 0x80, CHR 0x87],
      [CHR 0xE2, CHR 0x80, CHR 0x88], [CHR 0xE2, CHR 0x80, CHR 0x89],
      [CHR 0xE2, CHR 0x80, CHR 0x8A],
      [CHR 0xE2, CHR 0x80, CHR 0xA8], [CHR 0xE2, CHR 0x80, CHR 0xA9],
      [CHR 0xE2, CHR 0x80, CHR 0xAF],
      [CHR 0xE2, CHR 0x81, CHR 0x9F],
      [CHR 0xE3, CHR 0x80, CHR 0x80]]"

function trimLeading :: "string list \<Rightarrow> string \<Rightarrow> string" where
  "trimLeading ws s =
     (case find (\<lambda>w. w \<noteq> [] \<and> prefix w s) ws of
        None \<Rightarrow> s
      | Some w \<Rightarrow> trimLeading ws (drop (length w) s))"
  by pat_completeness auto
termination
proof (relation "measure (\<lambda>(ws, s). length s)")
  show "wf (measure (\<lambda>(ws, s). length s))" by simp
next
  fix ws :: "string list" and s w :: string
  assume "find (\<lambda>w. w \<noteq> [] \<and> prefix w s) ws = Some w"
  then have "w \<noteq> []" and "prefix w s"
    by (auto simp: find_Some_iff)
  then show "((ws, drop (length w) s), (ws, s)) \<in> measure (\<lambda>(ws, s). length s)"
    by (cases s) (auto simp: neq_Nil_conv)
qed

declare trimLeading.simps [simp del]

definition TrimSpace :: "string \<Rightarrow> string" where
  "TrimSpace s = rev (trimLeading (map rev whiteSpace) (rev (trimLeading whiteSpace s)))"

section \<open>strconv.Atoi\<close>

text \<open>
  \<^verbatim>\<open>strconv.Atoi\<close> on a 64-bit platform: an optional sign \<^verbatim>\<open>+\<close> or \<^verbatim>\<open>-\<close>, then one
  or more decimal digits, and the value must fit a signed 64-bit \<^verbatim>\<open>int\<close>. \<open>None\<close>
  stands for the \<^verbatim>\<open>*NumError\<close> (syntax or range); the program only tests
  \<^verbatim>\<open>err != nil\<close>.
\<close>

definition isDigit :: "char \<Rightarrow> bool" where
  "isDigit c \<longleftrightarrow> (48::nat) \<le> of_char c \<and> of_char c \<le> (57::nat)"

definition digitValue :: "char \<Rightarrow> nat" where
  "digitValue c = of_char c - 48"

fun parseDigits :: "nat \<Rightarrow> string \<Rightarrow> nat option" where
  "parseDigits n [] = Some n"
| "parseDigits n (c # cs) =
     (if isDigit c then parseDigits (n * 10 + digitValue c) cs else None)"

definition Atoi :: "string \<Rightarrow> int option" where
  "Atoi s =
     (case s of
        [] \<Rightarrow> None
      | c # cs \<Rightarrow>
          let neg = (c = CHR ''-'');
              body = (if c = CHR ''-'' \<or> c = CHR ''+'' then cs else s)
          in if body = [] then None
             else
              (case parseDigits 0 body of
                 None \<Rightarrow> None
               | Some n \<Rightarrow>
                   if neg then (if 9223372036854775808 < n then None else Some (- int n))
                   else (if 9223372036854775808 \<le> n then None else Some (int n))))"

section \<open>Errors\<close>

text \<open>
  The program reports failures as \<^verbatim>\<open>fmt.Errorf\<close> values, one message per site. Each
  site is a constructor carrying the arguments of its message, the wrapped error
  (\<^verbatim>\<open>%w\<close>) among them. A slice expression or an index out of range panics in Go; the
  panic is a value here too. \<open>PathError\<close> is an error of an operating system call,
  \<open>ErrBadPattern\<close> the one of \<^verbatim>\<open>path/filepath\<close>, \<open>CorruptArchive\<close> a failure of
  the gzip or tar reader.
\<close>

datatype errno = ENOENT | ENOTDIR | EISDIR | EEXIST

datatype error =
    InvalidVersionFormat string
  | InvalidMajorVersion string
  | NegativeMajorVersion string
  | InvalidMinorVersion string
  | NegativeMinorVersion string
  | InvalidPatchVersion string
  | NegativePatchVersion string
  | FilenameFormatMismatch
  | FailedToListRemoteFiles error
  | NoPackagesFoundFor string
  | NoPackagesMatchingConstraint string string
  | PanicOutOfRange
  | RelError string string
  | ErrBadPattern
  | PathError errno
  | CorruptArchive
  | InvalidPattern_in string error
  | InvalidRecursivePattern string
  | InvalidExcludePattern string error
  | FailedToCollectFiles error
  | NoFilesFoundMatching "string list"
  | FailedToCreateOutputFile error
  | FailedToAddFile string error
  | FailedToOpenFile error
  | FailedToGetArchiveName string error
  | FailedToCopyFileContent error
  | FailedToOpenArchive error
  | FailedToCreateGzipReader error
  | FailedToReadTarHeader error
  | FailedToExtractFile string error
  | IllegalFilePath string
  | FailedToCreateDirectory error
  | FailedToCreateParentDirectory error
  | FailedToCreateFile error

text \<open>The error kinds of the specification, and the kind of each error of the code.\<close>

datatype error_kind =
    InvalidFormat
  | InvalidPattern
  | NoFilesMatched
  | IllegalPath
  | NoPackagesFound
  | NoVersionSatisfiesConstraint
  | OtherFailure

text \<open>An error that wraps another one with \<^verbatim>\<open>%w\<close> is of the kind of the inner error.\<close>

fun kind_of :: "error \<Rightarrow> error_kind" where
  "kind_of (InvalidVersionFormat s) = InvalidFormat"
| "kind_of (InvalidMajorVersion s) = InvalidFormat"
| "kind_of (NegativeMajorVersion s) = InvalidFormat"
| "kind_of (InvalidMinorVersion s) = InvalidFormat"
| "kind_of (NegativeMinorVersion s) = InvalidFormat"
| "kind_of (InvalidPatchVersion s) = InvalidFormat"
| "kind_of (NegativePatchVersion s) = InvalidFormat"
| "kind_of (NoPackagesFoundFor n) = NoPackagesFound"
| "kind_of (NoPackagesMatchingConstraint n c) = NoVersionSatisfiesConstraint"
| "kind_of ErrBadPattern = InvalidPattern"
| "kind_of (InvalidPattern_in p e) = InvalidPattern"
| "kind_of (InvalidRecursivePattern p) = InvalidPattern"
| "kind_of (InvalidExcludePattern p e) = InvalidPattern"
| "kind_of (NoFilesFoundMatching ps) = NoFilesMatched"
| "kind_of (IllegalFilePath p) = IllegalPath"
| "kind_of (FailedToCollectFiles e) = kind_of e"
| "kind_of (FailedToExtractFile n e) = kind_of e"
| "kind_of e = OtherFailure"

section \<open>Versions (internal/controller/helper.go)\<close>

record Version =
  Major :: int
  Minor :: int
  Patch :: int
  Raw :: string

record PackageCandidate =
  Filename :: string
  CandidateVersion :: Version

text \<open>\<^verbatim>\<open>config.PackageRequest\<close>: the requested name and the version constraint.\<close>

record PackageRequest =
  Name :: string
  Constraint :: string

definition parseVersion :: "string \<Rightarrow> error + Version" where
  "parseVersion versionStr =
     (let parts = Split versionStr ''.'' in
      if length parts < 2 \<or> length parts > 3 then Inl (InvalidVersionFormat versionStr)
      else
       (case Atoi (parts ! 0) of
          None \<Rightarrow> Inl (InvalidMajorVersion (parts ! 0))
        | Some major \<Rightarrow>
            if major < 0 then Inl (NegativeMajorVersion (parts ! 0))
            else
             (case Atoi (parts ! 1) of
                None \<Rightarrow> Inl (InvalidMinorVersion (parts ! 1))
              | Some minor \<Rightarrow>
                  if minor < 0 then Inl (NegativeMinorVersion (parts ! 1))
                  else if length parts = 3 then
                    (case Atoi (parts ! 2) of
                       None \<Rightarrow> Inl (InvalidPatchVersion (parts ! 2))
                     | Some patch \<Rightarrow>
                         if patch < 0 then Inl (NegativePatchVersion (parts ! 2))
                         else Inr \<lparr>Major = major, Minor = minor, Patch = patch,
                                   Raw = versionStr\<rparr>)
                  else Inr \<lparr>Major = major, Minor = minor, Patch = 0,
                            Raw = versionStr\<rparr>)))"

definition Compare :: "Version \<Rightarrow> Version \<Rightarrow> int" where
  "Compare v other =
     (if Major v \<noteq> Major other then (if Major v > Major other then 1 else - 1)
      else if Minor v \<noteq> Minor other then (if Minor v > Minor other then 1 else - 1)
      else if Patch v \<noteq> Patch other then (if Patch v > Patch other then 1 else - 1)
      else 0)"

definition String :: "Version \<Rightarrow> string" where
  "String v = Raw v"

definition satisfiesConstraint :: "Version \<Rightarrow> string \<Rightarrow> bool" where
  "satisfiesConstraint v constraint0 =
     (if constraint0 = [] then True
      else
        let constraint = TrimSpace constraint0;
            (operator, targetVersionStr) =
              (if HasPrefix constraint ''>='' then (''>='', drop 2 constraint)
               else if HasPrefix constraint ''<='' then (''<='', drop 2 constraint)
               else if HasPrefix constraint ''>'' then (''>'', drop 1 constraint)
               else if HasPrefix constraint ''<'' then (''<'', drop 1 constraint)
               else if HasPrefix constraint ''='' then (''='', drop 1 constraint)
               else (''='', constraint))
        in (case parseVersion (TrimSpace targetVersionStr) of
              Inl err \<Rightarrow> False
            | Inr targetVersion \<Rightarrow>
                let comparison = Compare v targetVersion in
                if operator = ''>='' then comparison \<ge> 0
                else if operator = ''<='' then comparison \<le> 0
                else if operator = ''>'' then comparison > 0
                else if operator = ''<'' then comparison < 0
                else if operator = ''='' then comparison = 0
                else False))"

text \<open>
  The slice expression \<^verbatim>\<open>filename[len(prefix) : len(filename)-len(suffix)]\<close> panics when
  its low bound exceeds its high bound.
\<close>

definition extractVersionFromFilename :: "string \<Rightarrow> string \<Rightarrow> error + string" where
  "extractVersionFromFilename filename packageName =
     (let prefix' = packageName @ ''-''; suffix' = ''.tar.gz'' in
      if \<not> HasPrefix filename prefix' \<or> \<not> HasSuffix filename suffix'
      then Inl FilenameFormatMismatch
      else if length filename - length suffix' < length prefix' then Inl PanicOutOfRange
      else Inr (drop (length prefix') (take (length filename - length suffix') filename)))"

text \<open>The lines that \<^verbatim>\<open>findBestPackageVersion\<close> prints, one constructor per \<^verbatim>\<open>Printf\<close>.\<close>

datatype output_line =
    WarningCouldNotParseVersion string error
  | WarningInvalidVersionFormat string error
  | FoundCandidates nat string
  | CandidateLine string string
  | Selected string string nat

text \<open>
  The first loop of \<^verbatim>\<open>findBestPackageVersion\<close>: the files of the listing in order,
  with the lines printed so far and the candidates collected so far.
\<close>

fun scanFiles ::
  "string \<Rightarrow> string list \<Rightarrow> output_line list \<Rightarrow> PackageCandidate list \<Rightarrow>
   output_line list \<times> (error + PackageCandidate list)" where
  "scanFiles name [] out candidates = (out, Inr candidates)"
| "scanFiles name (file # files) out candidates =
     (if HasPrefix file (name @ ''-'') \<and> HasSuffix file ''.tar.gz'' then
        (case extractVersionFromFilename file name of
           Inl PanicOutOfRange \<Rightarrow> (out, Inl PanicOutOfRange)
         | Inl err \<Rightarrow>
             scanFiles name files (out @ [WarningCouldNotParseVersion file err]) candidates
         | Inr versionStr \<Rightarrow>
             (case parseVersion versionStr of
                Inl err \<Rightarrow>
                  scanFiles name files (out @ [WarningInvalidVersionFormat file err])
                    candidates
              | Inr version \<Rightarrow>
                  scanFiles name files out
                    (candidates @ [\<lparr>Filename = file, CandidateVersion = version\<rparr>])))
      else scanFiles name files out candidates)"

text \<open>
  \<^verbatim>\<open>sort.Slice\<close> belongs to the Go library, and its algorithm (insertion sort on short
  slices, pattern-defeating quicksort on long ones) is not fixed by its documentation,
  which promises a sorted permutation and no stability. The sort is therefore an
  argument \<open>sort_Slice\<close> of the model, and the contract is what theorems assume of it:
  for a \<open>lt\<close> (the \<^verbatim>\<open>less\<close> argument) that is a strict weak ordering, the result is a permutation of the
  input in which no element is \<open>lt\<close> an earlier one.
\<close>

definition strict_weak_order :: "('a \<Rightarrow> 'a \<Rightarrow> bool) \<Rightarrow> bool" where
  "strict_weak_order lt \<longleftrightarrow>
     (\<forall>a b. lt a b \<longrightarrow> \<not> lt b a) \<and>
     (\<forall>a b c. \<not> lt b a \<and> \<not> lt c b \<longrightarrow> \<not> lt c a)"

definition sort_Slice_contract ::
  "(('a \<Rightarrow> 'a \<Rightarrow> bool) \<Rightarrow> 'a list \<Rightarrow> 'a list) \<Rightarrow> bool" where
  "sort_Slice_contract sort_Slice \<longleftrightarrow>
     (\<forall>lt xs. strict_weak_order lt \<longrightarrow>
        mset (sort_Slice lt xs) = mset xs \<and>
        sorted_wrt (\<lambda>a b. \<not> lt b a) (sort_Slice lt xs))"

text \<open>
  \<^verbatim>\<open>insertionSortLessFunc\<close>, which \<^verbatim>\<open>sort.Slice\<close> runs on slices of at most 12
  elements: each element in turn is swapped towards the front while it is \<open>lt\<close>
  than its left neighbour. \<open>insertLeft\<close> works on the reversed sorted part.
\<close>

fun insertLeft :: "('a \<Rightarrow> 'a \<Rightarrow> bool) \<Rightarrow> 'a \<Rightarrow> 'a list \<Rightarrow> 'a list" where
  "insertLeft lt x [] = [x]"
| "insertLeft lt x (y # ys) =
     (if lt x y then y # insertLeft lt x ys else x # y # ys)"

definition insertionSort :: "('a \<Rightarrow> 'a \<Rightarrow> bool) \<Rightarrow> 'a list \<Rightarrow> 'a list" where
  "insertionSort lt xs = rev (foldl (\<lambda>sorted x. insertLeft lt x sorted) [] xs)"

definition versionGreater :: "PackageCandidate \<Rightarrow> PackageCandidate \<Rightarrow> bool" where
  "versionGreater a b \<longleftrightarrow> Compare (CandidateVersion a) (CandidateVersion b) > 0"

definition findBestPackageVersion ::
  "((PackageCandidate \<Rightarrow> PackageCandidate \<Rightarrow> bool) \<Rightarrow>
      PackageCandidate list \<Rightarrow> PackageCandidate list) \<Rightarrow>
   error + string list \<Rightarrow> PackageRequest \<Rightarrow> output_line list \<times> (error + string)" where
  "findBestPackageVersion sort_Slice listFiles pkg =
     (case listFiles of
        Inl err \<Rightarrow> ([], Inl (FailedToListRemoteFiles err))
      | Inr files \<Rightarrow>
          (case scanFiles (Name pkg) files [] [] of
             (out, Inl err) \<Rightarrow> (out, Inl err)
           | (out, Inr candidates) \<Rightarrow>
               if length candidates = 0 then (out, Inl (NoPackagesFoundFor (Name pkg)))
               else
                 let out' = out @ [FoundCandidates (length candidates) (Name pkg)]
                              @ map (\<lambda>c. CandidateLine (Filename c)
                                            (String (CandidateVersion c))) candidates;
                     validCandidates =
                       filter (\<lambda>c. satisfiesConstraint (CandidateVersion c) (Constraint pkg))
                         candidates
                 in if length validCandidates = 0
                    then (out', Inl (NoPackagesMatchingConstraint (Name pkg) (Constraint pkg)))
                    else
                      (case sort_Slice versionGreater validCandidates of
                         [] \<Rightarrow> (out', Inl PanicOutOfRange)
                       | selected # rest \<Rightarrow>
                           (out' @ [Selected (Filename selected)
                                      (String (CandidateVersion selected))
                                      (length validCandidates)],
                            Inr (Filename selected)))))"


section \<open>Notions used to state the properties\<close>

text \<open>
  A version string in the words of the specification. Its parts are the pieces between
  its dots. A decimal numeral is a non-empty string of the digits \<^verbatim>\<open>0\<close> to \<^verbatim>\<open>9\<close>, and
  denotes the number that the digits give by position.
\<close>

fun dotParts :: "string \<Rightarrow> string list" where
  "dotParts [] = [[]]"
| "dotParts (c # cs) =
     (if c = CHR ''.'' then [] # dotParts cs
      else (case dotParts cs of p # ps \<Rightarrow> (c # p) # ps | [] \<Rightarrow> [[c]]))"

definition decimalDigit :: "char \<Rightarrow> bool" where
  "decimalDigit c \<longleftrightarrow> c \<in> set ''0123456789''"

definition digitOf :: "char \<Rightarrow> nat" where
  "digitOf c = length (takeWhile (\<lambda>d. d \<noteq> c) ''0123456789'')"

fun numeralValue :: "string \<Rightarrow> nat" where
  "numeralValue [] = 0"
| "numeralValue (c # cs) = digitOf c * 10 ^ length cs + numeralValue cs"

definition decimalNumeral :: "string \<Rightarrow> bool" where
  "decimalNumeral s \<longleftrightarrow> s \<noteq> [] \<and> list_all decimalDigit s"

text \<open>
  The claim as worded: two or three parts, each a base-10 non-negative integer.
\<close>

definition numeralVersion :: "string \<Rightarrow> bool" where
  "numeralVersion s \<longleftrightarrow>
     (length (dotParts s) = 2 \<or> length (dotParts s) = 3) \<and>
     list_all decimalNumeral (dotParts s)"

text \<open>
  The parts that the program accepts: a decimal numeral below \<open>2\<^sup>6\<^sup>3\<close>, possibly after
  one sign; after a minus sign the numeral must denote zero.
\<close>

definition unsignedPart :: "string \<Rightarrow> string" where
  "unsignedPart p = (if p \<noteq> [] \<and> (hd p = CHR ''+'' \<or> hd p = CHR ''-'') then tl p else p)"

definition partValue :: "string \<Rightarrow> int" where
  "partValue p = int (numeralValue (unsignedPart p))"

definition acceptedPart :: "string \<Rightarrow> bool" where
  "acceptedPart p \<longleftrightarrow>
     decimalNumeral (unsignedPart p) \<and>
     numeralValue (unsignedPart p) < 9223372036854775808 \<and>
     (hd p = CHR ''-'' \<longrightarrow> numeralValue (unsignedPart p) = 0)"

definition acceptedVersion :: "string \<Rightarrow> bool" where
  "acceptedVersion s \<longleftrightarrow>
     (length (dotParts s) = 2 \<or> length (dotParts s) = 3) \<and>
     list_all acceptedPart (dotParts s)"

text \<open>
  The filename shape \<^verbatim>\<open><packageName>-<version>.tar.gz\<close>, the version string embedded
  in a filename of that shape, and the candidates and warnings that the first loop of
  \<open>findBestPackageVersion\<close> amounts to.
\<close>

definition matchesShape :: "string \<Rightarrow> string \<Rightarrow> bool" where
  "matchesShape name file = (HasPrefix file (name @ ''-'') \<and> HasSuffix file ''.tar.gz'')"

definition embeddedVersion :: "string \<Rightarrow> string \<Rightarrow> string" where
  "embeddedVersion name file = drop (length name + 1) (take (length file - 7) file)"

definition candidateOf :: "string \<Rightarrow> string \<Rightarrow> PackageCandidate option" where
  "candidateOf name file =
     (if matchesShape name file then
        (case parseVersion (embeddedVersion name file) of
           Inl err \<Rightarrow> None
         | Inr version \<Rightarrow> Some \<lparr>Filename = file, CandidateVersion = version\<rparr>)
      else None)"

definition warningOf :: "string \<Rightarrow> string \<Rightarrow> output_line option" where
  "warningOf name file =
     (if matchesShape name file then
        (case parseVersion (embeddedVersion name file) of
           Inl err \<Rightarrow> Some (WarningInvalidVersionFormat file err)
         | Inr version \<Rightarrow> None)
      else None)"

text \<open>A filename is a satisfying candidate with version \<open>v\<close>.\<close>

definition satisfying :: "string \<Rightarrow> string \<Rightarrow> string \<Rightarrow> Version \<Rightarrow> bool" where
  "satisfying name constraint file v =
     (matchesShape name file \<and> parseVersion (embeddedVersion name file) = Inr v \<and>
      satisfiesConstraint v constraint)"

section \<open>Paths (path/filepath on Unix)\<close>

text \<open>
  The program runs the functions of \<^verbatim>\<open>path/filepath\<close> with the Unix separator
  \<^verbatim>\<open>/\<close> and without volume names. They are lexical: none of them looks at the file
  system.
\<close>

text \<open>\<^verbatim>\<open>strings.Join\<close>.\<close>

fun strings_Join :: "string list \<Rightarrow> string \<Rightarrow> string" where
  "strings_Join [] sep = []"
| "strings_Join [x] sep = x"
| "strings_Join (x # y # ys) sep = x @ sep @ strings_Join (y # ys) sep"

text \<open>
  \<^verbatim>\<open>filepath.Clean\<close>. The elements between separators are processed from the left
  onto the output \<open>out\<close>: an empty element and \<^verbatim>\<open>.\<close> are dropped; \<^verbatim>\<open>..\<close> removes
  the last element of the output when there is one to remove (one that is not itself
  a leading \<^verbatim>\<open>..\<close>), is appended when the path is not rooted, and is dropped at the
  root; any other element is appended. The empty result is \<^verbatim>\<open>.\<close>.
\<close>

definition cleanStep :: "bool \<Rightarrow> string list \<Rightarrow> string \<Rightarrow> string list" where
  "cleanStep rooted out e =
     (if e = [] \<or> e = ''.'' then out
      else if e = ''..'' then
        (if out \<noteq> [] \<and> last out \<noteq> ''..'' then butlast out
         else if \<not> rooted then out @ [''..'']
         else out)
      else out @ [e])"

definition Clean :: "string \<Rightarrow> string" where
  "Clean path =
     (if path = [] then ''.''
      else
        let rooted = (hd path = CHR ''/'');
            out = foldl (cleanStep rooted) [] (Split path ''/'');
            s = (if rooted then ''/'' else []) @ strings_Join out ''/''
        in if s = [] then ''.'' else s)"

text \<open>
  \<^verbatim>\<open>filepath.Join\<close>: the elements from the first non-empty one on, joined by the
  separator and cleaned; the empty string when every element is empty.
\<close>

definition Join :: "string list \<Rightarrow> string" where
  "Join elem =
     (case dropWhile (\<lambda>e. e = []) elem of
        [] \<Rightarrow> []
      | e # es \<Rightarrow> Clean (strings_Join (e # es) ''/''))"

text \<open>
  \<^verbatim>\<open>filepath.Base\<close>: the last element of the path, trailing separators removed first;
  \<^verbatim>\<open>.\<close> for the empty path and \<^verbatim>\<open>/\<close> for a path of separators only.
\<close>

definition Base :: "string \<Rightarrow> string" where
  "Base path =
     (if path = [] then ''.''
      else
        let stripped = rev (dropWhile (\<lambda>c. c = CHR ''/'') (rev path));
            element = rev (takeWhile (\<lambda>c. c \<noteq> CHR ''/'') (rev stripped))
        in if element = [] then ''/'' else element)"

text \<open>\<^verbatim>\<open>filepath.Dir\<close>: the path up to and including its last separator, cleaned.\<close>

definition Dir :: "string \<Rightarrow> string" where
  "Dir path = Clean (rev (dropWhile (\<lambda>c. c \<noteq> CHR ''/'') (rev path)))"

definition IsAbs :: "string \<Rightarrow> bool" where
  "IsAbs path = HasPrefix path ''/''"

text \<open>\<^verbatim>\<open>filepath.ToSlash\<close> replaces the separator by a slash: nothing to do on Unix.\<close>

definition ToSlash :: "string \<Rightarrow> string" where
  "ToSlash path = path"

text \<open>
  \<^verbatim>\<open>filepath.Abs\<close> for the working directory \<open>wd\<close> that \<^verbatim>\<open>os.Getwd\<close> returns.
\<close>

definition Abs :: "string \<Rightarrow> string \<Rightarrow> string" where
  "Abs wd path = (if IsAbs path then Clean path else Join [wd, path])"


definition elements :: "string \<Rightarrow> string list" where
  "elements path = filter (\<lambda>e. e \<noteq> []) (Split path ''/'')"


section \<open>UTF-8 decoding\<close>

text \<open>
  \<^verbatim>\<open>utf8.DecodeRuneInString\<close>: the code point at the start of the string and the
  number of bytes of its encoding; \<open>(RuneError, 1)\<close> for an invalid encoding and
  \<open>(RuneError, 0)\<close> for the empty string.
\<close>

definition RuneError :: nat where
  "RuneError = 65533"

definition continuation :: "char \<Rightarrow> bool" where
  "continuation c \<longleftrightarrow> (128::nat) \<le> of_char c \<and> of_char c \<le> (191::nat)"

definition DecodeRuneInString :: "string \<Rightarrow> nat \<times> nat" where
  "DecodeRuneInString s =
     (case s of
        [] \<Rightarrow> (RuneError, 0)
      | c0 # s1 \<Rightarrow>
          let b0 = (of_char c0 :: nat) in
          if b0 < 128 then (b0, 1)
          else if 194 \<le> b0 \<and> b0 \<le> 223 then
            (case s1 of
               c1 # s2 \<Rightarrow>
                 if continuation c1 then ((b0 - 192) * 64 + (of_char c1 - 128), 2)
                 else (RuneError, 1)
             | [] \<Rightarrow> (RuneError, 1))
          else if 224 \<le> b0 \<and> b0 \<le> 239 then
            (case s1 of
               c1 # c2 # s3 \<Rightarrow>
                 let b1 = (of_char c1 :: nat) in
                 if (if b0 = 224 then 160 else 128) \<le> b1 \<and>
                    b1 \<le> (if b0 = 237 then 159 else 191) \<and> continuation c2
                 then (((b0 - 224) * 64 + (b1 - 128)) * 64 + (of_char c2 - 128), 3)
                 else (RuneError, 1)
             | _ \<Rightarrow> (RuneError, 1))
          else if 240 \<le> b0 \<and> b0 \<le> 244 then
            (case s1 of
               c1 # c2 # c3 # s4 \<Rightarrow>
                 let b1 = (of_char c1 :: nat) in
                 if (if b0 = 240 then 144 else 128) \<le> b1 \<and>
                    b1 \<le> (if b0 = 244 then 143 else 191) \<and>
                    continuation c2 \<and> continuation c3
                 then ((((b0 - 240) * 64 + (b1 - 128)) * 64 + (of_char c2 - 128)) * 64
                         + (of_char c3 - 128), 4)
                 else (RuneError, 1)
             | _ \<Rightarrow> (RuneError, 1))
          else (RuneError, 1))"

section \<open>filepath.Match\<close>

text \<open>
  \<^verbatim>\<open>filepath.Match\<close> as of Go 1.23, on Unix. A pattern is a sequence of chunks, each
  a run of single-character operators (literals, \<^verbatim>\<open>?\<close>, character classes, escapes)
  possibly preceded by stars. \<open>scanChunk\<close> cuts the next chunk off the pattern.
\<close>

fun scanChunkBody :: "bool \<Rightarrow> string \<Rightarrow> string \<times> string" where
  "scanChunkBody inrange [] = ([], [])"
| "scanChunkBody inrange (c # cs) =
     (if c = CHR 0x5C then
        (case cs of
           [] \<Rightarrow> ([c], [])
         | d # ds \<Rightarrow> (case scanChunkBody inrange ds of (chunk, rest) \<Rightarrow> (c # d # chunk, rest)))
      else if c = CHR ''['' then
        (case scanChunkBody True cs of (chunk, rest) \<Rightarrow> (c # chunk, rest))
      else if c = CHR '']'' then
        (case scanChunkBody False cs of (chunk, rest) \<Rightarrow> (c # chunk, rest))
      else if c = CHR ''*'' \<and> \<not> inrange then ([], c # cs)
      else (case scanChunkBody inrange cs of (chunk, rest) \<Rightarrow> (c # chunk, rest)))"

definition scanChunk :: "string \<Rightarrow> bool \<times> string \<times> string" where
  "scanChunk pattern =
     (let pattern' = dropWhile (\<lambda>c. c = CHR ''*'') pattern;
          star = (pattern \<noteq> [] \<and> hd pattern = CHR ''*'')
      in case scanChunkBody False pattern' of (chunk, rest) \<Rightarrow> (star, chunk, rest))"

text \<open>
  \<open>getEsc\<close> reads one possibly escaped character of a character class and returns it
  with the rest of the chunk, which must not be empty.
\<close>

definition getEsc :: "string \<Rightarrow> error + (nat \<times> string)" where
  "getEsc chunk =
     (if chunk = [] \<or> hd chunk = CHR ''-'' \<or> hd chunk = CHR '']'' then Inl ErrBadPattern
      else
        let chunk' = (if hd chunk = CHR 0x5C then tl chunk else chunk) in
        if chunk' = [] then Inl ErrBadPattern
        else
          (case DecodeRuneInString chunk' of
             (r, n) \<Rightarrow>
               if r = RuneError \<and> n = 1 then Inl ErrBadPattern
               else if drop n chunk' = [] then Inl ErrBadPattern
               else Inr (r, drop n chunk')))"

lemma DecodeRuneInString_size:
  "s \<noteq> [] \<Longrightarrow> 1 \<le> snd (DecodeRuneInString s)"
  by (auto simp: DecodeRuneInString_def Let_def split: list.splits)

lemma getEsc_shorter:
  assumes "getEsc chunk = Inr (r, rest)"
  shows "length rest < length chunk"
proof -
  from assms have ne: "chunk \<noteq> []"
    by (auto simp: getEsc_def)
  define chunk' where "chunk' = (if hd chunk = CHR 0x5C then tl chunk else chunk)"
  from assms have ne': "chunk' \<noteq> []"
    by (auto simp: getEsc_def chunk'_def Let_def split: if_splits)
  from assms have "rest = drop (snd (DecodeRuneInString chunk')) chunk'"
    by (auto simp: getEsc_def chunk'_def Let_def split: if_splits prod.splits)
  with DecodeRuneInString_size [OF ne'] ne' have "length rest < length chunk'"
    by (cases chunk') auto
  moreover have "length chunk' \<le> length chunk"
    by (simp add: chunk'_def)
  ultimately show ?thesis by simp
qed

text \<open>
  The ranges of a character class, up to the closing bracket: \<open>r\<close> is the character of
  the name under test, \<open>match\<close> whether a range seen so far contains it, \<open>nrange\<close>
  the number of ranges seen. The result is \<open>match\<close> and the chunk after the bracket.
\<close>

function classRanges :: "nat \<Rightarrow> string \<Rightarrow> bool \<Rightarrow> nat \<Rightarrow> error + (bool \<times> string)" where
  "classRanges r chunk match nrange =
     (if chunk \<noteq> [] \<and> hd chunk = CHR '']'' \<and> nrange > 0 then Inr (match, tl chunk)
      else
        (case getEsc chunk of
           Inl err \<Rightarrow> Inl err
         | Inr (lo, chunk1) \<Rightarrow>
             if hd chunk1 = CHR ''-'' then
               (case getEsc (tl chunk1) of
                  Inl err \<Rightarrow> Inl err
                | Inr (hi, chunk2) \<Rightarrow>
                    classRanges r chunk2 (match \<or> (lo \<le> r \<and> r \<le> hi)) (nrange + 1))
             else classRanges r chunk1 (match \<or> (lo \<le> r \<and> r \<le> lo)) (nrange + 1)))"
  by pat_completeness auto
termination
proof (relation "measure (\<lambda>(r, chunk, match, nrange). length chunk)")
  show "wf (measure (\<lambda>(r, chunk, match, nrange). length chunk))" by simp
next
  fix r :: nat and chunk :: string and match :: bool and nrange :: nat
    and x2 :: "nat \<times> string" and lo :: nat and chunk1 :: string
    and x2a :: "nat \<times> string" and hi :: nat and chunk2 :: string
  assume a: "getEsc chunk = Inr x2" "(lo, chunk1) = x2"
    and b: "getEsc (tl chunk1) = Inr x2a" "(hi, chunk2) = x2a"
  from a have "length chunk1 < length chunk"
    using getEsc_shorter [of chunk lo chunk1] by simp
  moreover from b have "length chunk2 < length (tl chunk1)"
    using getEsc_shorter [of "tl chunk1" hi chunk2] by simp
  ultimately show "((r, chunk2, match \<or> lo \<le> r \<and> r \<le> hi, nrange + 1),
      (r, chunk, match, nrange)) \<in> measure (\<lambda>(r, chunk, match, nrange). length chunk)"
    by simp
next
  fix r :: nat and chunk :: string and match :: bool and nrange :: nat
    and x2 :: "nat \<times> string" and lo :: nat and chunk1 :: string
  assume a: "getEsc chunk = Inr x2" "(lo, chunk1) = x2"
  from a have "length chunk1 < length chunk"
    using getEsc_shorter [of chunk lo chunk1] by simp
  then show "((r, chunk1, match \<or> lo \<le> r \<and> r \<le> lo, nrange + 1),
      (r, chunk, match, nrange)) \<in> measure (\<lambda>(r, chunk, match, nrange). length chunk)"
    by simp
qed

declare classRanges.simps [simp del]

lemma classRanges_shorter:
  "classRanges r chunk match nrange = Inr (m, rest) \<Longrightarrow> length rest < length chunk"
proof (induction r chunk match nrange rule: classRanges.induct)
  case (1 r chunk match nrange)
  show ?case
  proof (cases "chunk \<noteq> [] \<and> hd chunk = CHR '']'' \<and> nrange > 0")
    case True
    with "1.prems" have "rest = tl chunk"
      by (simp add: classRanges.simps [of r chunk])
    with True show ?thesis by (cases chunk) auto
  next
    case False
    from "1.prems" False obtain lo chunk1 where g: "getEsc chunk = Inr (lo, chunk1)"
      by (cases "getEsc chunk") (auto simp: classRanges.simps [of r chunk])
    then have l1: "length chunk1 < length chunk" by (rule getEsc_shorter)
    show ?thesis
    proof (cases "hd chunk1 = CHR ''-''")
      case dash: True
      from "1.prems" False g dash obtain hi chunk2
        where g2: "getEsc (tl chunk1) = Inr (hi, chunk2)"
        by (cases "getEsc (tl chunk1)") (auto simp: classRanges.simps [of r chunk])
      then have l2: "length chunk2 < length (tl chunk1)" by (rule getEsc_shorter)
      from "1.prems" False g dash g2
      have "classRanges r chunk2 (match \<or> (lo \<le> r \<and> r \<le> hi)) (nrange + 1) = Inr (m, rest)"
        by (simp add: classRanges.simps [of r chunk])
      from "1.IH"(1) [OF False g refl dash g2 refl this] l1 l2
      show ?thesis by simp
    next
      case nodash: False
      from "1.prems" False g nodash
      have "classRanges r chunk1 (match \<or> (lo \<le> r \<and> r \<le> lo)) (nrange + 1) = Inr (m, rest)"
        by (simp add: classRanges.simps [of r chunk])
      from "1.IH"(2) [OF False g refl nodash this] l1
      show ?thesis by simp
    qed
  qed
qed

text \<open>
  \<open>matchChunk\<close> matches a chunk against the beginning of \<open>s\<close> and returns the rest
  of \<open>s\<close> and whether the chunk matched. Once the match has failed, the rest of the
  chunk is still checked for syntax errors, without reading \<open>s\<close>.
\<close>

function matchChunkFrom :: "bool \<Rightarrow> string \<Rightarrow> string \<Rightarrow> error + (string \<times> bool)" where
  "matchChunkFrom failed0 chunk s =
     (case chunk of
        [] \<Rightarrow> (if failed0 then Inr ([], False) else Inr (s, True))
      | c # chunk' \<Rightarrow>
          let failed = (failed0 \<or> s = []) in
          if c = CHR ''['' then
            (let r = (if \<not> failed then fst (DecodeRuneInString s) else 0);
                 s1 = (if \<not> failed then drop (snd (DecodeRuneInString s)) s else s);
                 negated = (chunk' \<noteq> [] \<and> hd chunk' = CHR ''^'');
                 chunk2 = (if negated then tl chunk' else chunk')
             in case classRanges r chunk2 False 0 of
                  Inl err \<Rightarrow> Inl err
                | Inr (match, chunk3) \<Rightarrow>
                    matchChunkFrom (failed \<or> match = negated) chunk3 s1)
          else if c = CHR ''?'' then
            (if \<not> failed
             then matchChunkFrom (hd s = CHR ''/'') chunk'
                    (drop (snd (DecodeRuneInString s)) s)
             else matchChunkFrom failed chunk' s)
          else if c = CHR 0x5C then
            (case chunk' of
               [] \<Rightarrow> Inl ErrBadPattern
             | d # chunk'' \<Rightarrow>
                 if \<not> failed then matchChunkFrom (d \<noteq> hd s) chunk'' (tl s)
                 else matchChunkFrom failed chunk'' s)
          else
            (if \<not> failed then matchChunkFrom (c \<noteq> hd s) chunk' (tl s)
             else matchChunkFrom failed chunk' s))"
  by pat_completeness auto
termination
proof (relation "measure (\<lambda>(failed, chunk, s). length chunk)", goal_cases)
  case 1
  show ?case by simp
next
  case (2 failed0 chunk s c chunk' failed r s1 negated chunk2 x2 match chunk3)
  then have "classRanges r chunk2 False 0 = Inr (match, chunk3)" by simp
  then have "length chunk3 < length chunk2" by (rule classRanges_shorter)
  moreover from 2 have "length chunk2 \<le> length chunk'" by simp
  ultimately show ?case using 2 by simp
qed simp_all

declare matchChunkFrom.simps [simp del]

definition matchChunk :: "string \<Rightarrow> string \<Rightarrow> error + (string \<times> bool)" where
  "matchChunk chunk s = matchChunkFrom False chunk s"

text \<open>
  After a star the chunk may match further right: \<open>starSearch\<close> tries the name with
  one more byte skipped each time, never skipping a separator. \<open>lastChunk\<close> says that
  the pattern ends with this chunk, in which case a match must use up the name.
\<close>

datatype star_result = Found string | Failed error | NotFound

fun starSearch :: "string \<Rightarrow> bool \<Rightarrow> string \<Rightarrow> star_result" where
  "starSearch chunk lastChunk [] = NotFound"
| "starSearch chunk lastChunk (c # name) =
     (if c = CHR ''/'' then NotFound
      else
        (case matchChunk chunk name of
           Inl err \<Rightarrow> Failed err
         | Inr (t, ok) \<Rightarrow>
             if ok then (if lastChunk \<and> t \<noteq> [] then starSearch chunk lastChunk name
                         else Found t)
             else starSearch chunk lastChunk name))"

lemma scanChunkBody_length:
  "scanChunkBody inrange p = (chunk, rest) \<Longrightarrow> length chunk + length rest = length p"
  by (induction inrange p arbitrary: chunk rest rule: scanChunkBody.induct)
    (auto split: if_splits list.splits prod.splits)

lemma scanChunkBody_nonempty:
  "scanChunkBody False (c # cs) = (chunk, rest) \<Longrightarrow> c \<noteq> CHR ''*'' \<Longrightarrow> chunk \<noteq> []"
  by (auto split: if_splits list.splits prod.splits)

lemma scanChunk_shorter:
  assumes "scanChunk pattern = (star, chunk, rest)" and "pattern \<noteq> []"
  shows "length rest < length pattern"
proof -
  let ?p = "dropWhile (\<lambda>c. c = CHR ''*'') pattern"
  from assms(1) have b: "scanChunkBody False ?p = (chunk, rest)"
    and s: "star = (pattern \<noteq> [] \<and> hd pattern = CHR ''*'')"
    by (auto simp: scanChunk_def Let_def split: prod.splits)
  from scanChunkBody_length [OF b] have len: "length chunk + length rest = length ?p" .
  have le: "length ?p \<le> length pattern" by (rule length_dropWhile_le)
  show ?thesis
  proof (cases "hd pattern = CHR ''*''")
    case True
    with assms(2) have "length ?p < length pattern"
      by (cases pattern) (auto simp: le_imp_less_Suc length_dropWhile_le)
    with len show ?thesis by simp
  next
    case False
    with assms(2) obtain c cs where p: "pattern = c # cs" "c \<noteq> CHR ''*''"
      by (cases pattern) auto
    then have "?p = c # cs" by simp
    with b p have "chunk \<noteq> []" using scanChunkBody_nonempty by metis
    with len le show ?thesis by (cases chunk) auto
  qed
qed

text \<open>
  When the match fails, the rest of the pattern is still checked: a syntax error in
  it is reported instead of \<open>false\<close>.
\<close>

function checkRest :: "string \<Rightarrow> error + bool" where
  "checkRest pattern =
     (if pattern = [] then Inr False
      else
        (case scanChunk pattern of
           (star, chunk, rest) \<Rightarrow>
             (case matchChunk chunk [] of
                Inl err \<Rightarrow> Inl err
              | Inr res \<Rightarrow> checkRest rest)))"
  by pat_completeness auto
termination
  by (relation "measure length") (auto dest: scanChunk_shorter [OF sym])

declare checkRest.simps [simp del]

function Match :: "string \<Rightarrow> string \<Rightarrow> error + bool" where
  "Match pattern name =
     (if pattern = [] then Inr (name = [])
      else
        (case scanChunk pattern of
           (star, chunk, rest) \<Rightarrow>
             if star \<and> chunk = [] then Inr (CHR ''/'' \<notin> set name)
             else
               (case matchChunk chunk name of
                  Inl err \<Rightarrow> Inl err
                | Inr (t, ok) \<Rightarrow>
                    if ok \<and> (t = [] \<or> rest \<noteq> []) then Match rest t
                    else if star then
                      (case starSearch chunk (rest = []) name of
                         Found t' \<Rightarrow> Match rest t'
                       | Failed err \<Rightarrow> Inl err
                       | NotFound \<Rightarrow> checkRest rest)
                    else checkRest rest)))"
  by pat_completeness auto
termination
  by (relation "measure (\<lambda>(pattern, name). length pattern)")
    (auto dest: scanChunk_shorter [OF sym])

declare Match.simps [simp del]

section \<open>The file system\<close>

text \<open>
  The file system is a finite table from absolute paths, given element by element, to
  nodes: a regular file with its permission bits and bytes, or a directory with its
  permission bits. The root (the empty list of elements) is always a directory. The
  process state that the system calls read is kept with it: the working directory and
  the umask. Symbolic links, devices, ownership and access rights are not modelled;
  nothing else changes the file system while the program runs.
\<close>

datatype node = FileNode nat string | DirNode nat

record filesystem =
  nodes :: "(string list \<times> node) list"
  cwd :: "string list"
  umask :: nat

definition lookup :: "filesystem \<Rightarrow> string list \<Rightarrow> node option" where
  "lookup fs key = (if key = [] then Some (DirNode 493) else map_of (nodes fs) key)"

definition store :: "filesystem \<Rightarrow> string list \<Rightarrow> node \<Rightarrow> filesystem" where
  "store fs key n = fs\<lparr>nodes := AList.update key n (nodes fs)\<rparr>"

definition permission :: "filesystem \<Rightarrow> nat \<Rightarrow> nat" where
  "permission fs perm = (perm mod 512) - ((perm mod 512) AND umask fs)"

text \<open>
  Path resolution, as the kernel does it: from the root or from the working directory,
  element by element. Every element is looked up in a directory: the node reached so
  far must exist and be one. The node that the last element names need not exist.
\<close>

fun namei :: "filesystem \<Rightarrow> string list \<Rightarrow> string list \<Rightarrow> errno + string list" where
  "namei fs cur [] = Inr cur"
| "namei fs cur (e # es) =
     (case lookup fs cur of
        None \<Rightarrow> Inl ENOENT
      | Some (FileNode m c) \<Rightarrow> Inl ENOTDIR
      | Some (DirNode m) \<Rightarrow>
          if e = [] \<or> e = ''.'' then namei fs cur es
          else if e = ''..'' then namei fs (butlast cur) es
          else namei fs (cur @ [e]) es)"

definition resolve :: "filesystem \<Rightarrow> string \<Rightarrow> errno + string list" where
  "resolve fs path =
     (if path = [] then Inl ENOENT
      else if hd path = CHR ''/'' then namei fs [] (Split path ''/'')
      else namei fs (cwd fs) (Split path ''/''))"

text \<open>\<^verbatim>\<open>os.Getwd\<close>, \<^verbatim>\<open>os.Stat\<close> (and \<^verbatim>\<open>os.Lstat\<close>, the same without links).\<close>

definition Getwd :: "filesystem \<Rightarrow> string" where
  "Getwd fs = ''/'' @ strings_Join (cwd fs) ''/''"

definition Stat :: "filesystem \<Rightarrow> string \<Rightarrow> errno + node" where
  "Stat fs path =
     (case resolve fs path of
        Inl e \<Rightarrow> Inl e
      | Inr key \<Rightarrow> (case lookup fs key of None \<Rightarrow> Inl ENOENT | Some n \<Rightarrow> Inr n))"

definition IsNotExist :: "errno \<Rightarrow> bool" where
  "IsNotExist e = (e = ENOENT)"

fun IsDir :: "node \<Rightarrow> bool" where
  "IsDir (DirNode m) = True"
| "IsDir (FileNode m c) = False"

text \<open>
  \<^verbatim>\<open>os.OpenFile(path, O_WRONLY|O_CREATE|O_TRUNC, perm)\<close>: an existing file is emptied
  and keeps its mode, a missing one is created in its directory with \<open>perm\<close> less
  the umask. The result is the new file system and the place of the opened file.
  \<^verbatim>\<open>os.Create(path)\<close> is the same with \<open>perm = 0666\<close>.
\<close>

definition OpenFile_create ::
  "filesystem \<Rightarrow> string \<Rightarrow> nat \<Rightarrow> errno + (filesystem \<times> string list)" where
  "OpenFile_create fs path perm =
     (case resolve fs path of
        Inl e \<Rightarrow> Inl e
      | Inr key \<Rightarrow>
          (case lookup fs key of
             Some (DirNode m) \<Rightarrow> Inl EISDIR
           | Some (FileNode m c) \<Rightarrow> Inr (store fs key (FileNode m []), key)
           | None \<Rightarrow>
               (case lookup fs (butlast key) of
                  None \<Rightarrow> Inl ENOENT
                | Some (FileNode m c) \<Rightarrow> Inl ENOTDIR
                | Some (DirNode m) \<Rightarrow>
                    Inr (store fs key (FileNode (permission fs perm) []), key))))"


text \<open>Writing all of \<open>bytes\<close> to an open file, from its start.\<close>

definition writeAll :: "filesystem \<Rightarrow> string list \<Rightarrow> string \<Rightarrow> filesystem" where
  "writeAll fs key bytes =
     (case lookup fs key of
        Some (FileNode m c) \<Rightarrow> store fs key (FileNode m bytes)
      | _ \<Rightarrow> fs)"

text \<open>
  \<^verbatim>\<open>os.Mkdir\<close>. The system call accepts trailing separators on the name of the
  directory to make, which \<^verbatim>\<open>os.MkdirAll\<close> relies on.
\<close>

definition stripSeparators :: "string \<Rightarrow> string" where
  "stripSeparators path =
     (let stripped = rev (dropWhile (\<lambda>c. c = CHR ''/'') (rev path))
      in if stripped = [] \<and> path \<noteq> [] then ''/'' else stripped)"

definition Mkdir :: "filesystem \<Rightarrow> string \<Rightarrow> nat \<Rightarrow> errno + filesystem" where
  "Mkdir fs path perm =
     (case resolve fs (stripSeparators path) of
        Inl e \<Rightarrow> Inl e
      | Inr key \<Rightarrow>
          (case lookup fs key of
             Some n \<Rightarrow> Inl EEXIST
           | None \<Rightarrow>
               (case lookup fs (butlast key) of
                  None \<Rightarrow> Inl ENOENT
                | Some (FileNode m c) \<Rightarrow> Inl ENOTDIR
                | Some (DirNode m) \<Rightarrow> Inr (store fs key (DirNode (permission fs perm))))))"

text \<open>
  \<^verbatim>\<open>os.MkdirAll\<close>, as the Go library writes it: nothing to do when the path is a
  directory, an error when it is something else; otherwise the parent (the path up to
  the separator before its last element) is made first, then the directory itself.
\<close>

definition parentOf :: "string \<Rightarrow> string" where
  "parentOf path =
     rev (dropWhile (\<lambda>c. c \<noteq> CHR ''/'') (dropWhile (\<lambda>c. c = CHR ''/'') (rev path)))"

lemma parentOf_shorter: "path \<noteq> [] \<Longrightarrow> length (parentOf path) < length path"
proof -
  assume ne: "path \<noteq> []"
  let ?r = "dropWhile (\<lambda>c. c = CHR ''/'') (rev path)"
  have le: "length ?r \<le> length path"
    using length_dropWhile_le [of "\<lambda>c. c = CHR ''/''" "rev path"] by simp
  show ?thesis
  proof (cases ?r)
    case Nil
    have "parentOf path = []" unfolding parentOf_def Nil by simp
    with ne show ?thesis by simp
  next
    case (Cons c cs)
    then have "c \<noteq> CHR ''/''"
      using hd_dropWhile [of "\<lambda>c. c = CHR ''/''" "rev path"] by auto
    with Cons have "length (dropWhile (\<lambda>c. c \<noteq> CHR ''/'') ?r) \<le> length cs"
      by (simp add: length_dropWhile_le)
    moreover have "length (parentOf path) = length (dropWhile (\<lambda>c. c \<noteq> CHR ''/'') ?r)"
      unfolding parentOf_def by simp
    moreover have "length ?r = Suc (length cs)" unfolding Cons by simp
    ultimately show ?thesis using le by linarith
  qed
qed

function MkdirAll :: "filesystem \<Rightarrow> string \<Rightarrow> nat \<Rightarrow> filesystem \<times> errno option" where
  "MkdirAll fs path perm =
     (case Stat fs path of
        Inr n \<Rightarrow> (if IsDir n then (fs, None) else (fs, Some ENOTDIR))
      | Inl e \<Rightarrow>
          (case (if parentOf path \<noteq> [] then MkdirAll fs (parentOf path) perm else (fs, None)) of
             (fs', Some e') \<Rightarrow> (fs', Some e')
           | (fs', None) \<Rightarrow>
               (case Mkdir fs' path perm of
                  Inr fs'' \<Rightarrow> (fs'', None)
                | Inl e' \<Rightarrow>
                    (case Stat fs' path of
                       Inr n \<Rightarrow> (if IsDir n then (fs', None) else (fs', Some e'))
                     | Inl e'' \<Rightarrow> (fs', Some e')))))"
  by pat_completeness auto
termination
proof (relation "measure (\<lambda>(fs, path, perm). length path)", goal_cases)
  case 1
  show ?case by simp
next
  case (2 fs path perm e)
  then have "path \<noteq> []" by (auto simp: parentOf_def)
  from parentOf_shorter [OF this] show ?case by simp
qed

declare MkdirAll.simps [simp del]

text \<open>
  The names in a directory, sorted as \<^verbatim>\<open>sort.Strings\<close> does (bytewise).
\<close>

fun bytesLess :: "string \<Rightarrow> string \<Rightarrow> bool" where
  "bytesLess [] [] = False"
| "bytesLess [] (d # t) = True"
| "bytesLess (c # s) [] = False"
| "bytesLess (c # s) (d # t) =
     ((of_char c :: nat) < of_char d \<or> (c = d \<and> bytesLess s t))"

definition readDirNames :: "filesystem \<Rightarrow> string list \<Rightarrow> string list" where
  "readDirNames fs key =
     insertionSort bytesLess
       (remdups (map (\<lambda>(k, n). last k)
          (filter (\<lambda>(k, n). k \<noteq> [] \<and> butlast k = key) (nodes fs))))"

definition depthBound :: "filesystem \<Rightarrow> nat" where
  "depthBound fs = foldr max (map (\<lambda>(k, n). length k) (nodes fs)) 0"

section \<open>Collecting files (internal/utils/patterns.go)\<close>

text \<open>
  The function that \<open>expandRecursivePattern\<close> hands to \<^verbatim>\<open>filepath.Walk\<close>, called on a
  path with the node found there: a directory contributes nothing, a file contributes
  its path when the suffix is empty or matches its base name; a malformed suffix
  matches nothing.
\<close>

definition walkFn :: "string \<Rightarrow> string \<Rightarrow> node \<Rightarrow> string list" where
  "walkFn suffix' path info =
     (if IsDir info then []
      else if suffix' = [] then [path]
      else
        (case Match suffix' (Base path) of
           Inl err \<Rightarrow> []
         | Inr matched \<Rightarrow> if matched then [path] else []))"

lemma set_insertLeft_any: "set (insertLeft lt x ys) = insert x (set ys)"
  by (induction ys) auto

lemma set_foldl_insertLeft:
  "set (foldl (\<lambda>sorted x. insertLeft lt x sorted) acc xs) = set acc \<union> set xs"
  by (induction xs arbitrary: acc) (auto simp: set_insertLeft_any)

lemma set_insertionSort: "set (insertionSort lt xs) = set xs"
  by (simp add: insertionSort_def set_foldl_insertLeft)

lemma readDirNames_node:
  assumes "name \<in> set (readDirNames fs key)"
  shows "\<exists>n. (key @ [name], n) \<in> set (nodes fs)"
proof -
  from assms obtain k n where kn: "(k, n) \<in> set (nodes fs)" "k \<noteq> []" "butlast k = key"
    "name = last k"
    by (auto simp: readDirNames_def set_insertionSort)
  then have "k = key @ [name]" by (metis append_butlast_last_id)
  with kn(1) have "(key @ [name], n) \<in> set (nodes fs)" by simp
  then show ?thesis ..
qed

lemma depthBound_ge: "(k, n) \<in> set ns \<Longrightarrow> length k \<le> foldr max (map (\<lambda>(k, n). length k) ns) 0"
  by (induction ns) auto

text \<open>
  \<^verbatim>\<open>filepath.Walk\<close> with that function: the walk visits a path, then, when it is a
  directory, the paths of its entries in the order of their names. Next to each path
  the walk keeps the node that the path denotes.
\<close>

function walk :: "filesystem \<Rightarrow> string \<Rightarrow> string \<Rightarrow> string list \<Rightarrow> string list" where
  "walk fs suffix' path key =
     (case lookup fs key of
        None \<Rightarrow> []
      | Some info \<Rightarrow>
          if \<not> IsDir info then walkFn suffix' path info
          else walkFn suffix' path info @
               concat (map (\<lambda>name. walk fs suffix' (Join [path, name]) (key @ [name]))
                         (readDirNames fs key)))"
  by pat_completeness auto
termination
proof (relation "measure (\<lambda>(fs, suffix', path, key). Suc (depthBound fs) - length key)",
    goal_cases)
  case 1
  show ?case by simp
next
  case (2 fs suffix' path key info name)
  from readDirNames_node [OF 2(3)] obtain n where "(key @ [name], n) \<in> set (nodes fs)" ..
  from depthBound_ge [OF this] have "length (key @ [name]) \<le> depthBound fs"
    by (simp add: depthBound_def)
  then show ?case by simp
qed

declare walk.simps [simp del]

definition Walk :: "filesystem \<Rightarrow> string \<Rightarrow> string \<Rightarrow> string list" where
  "Walk fs suffix' root =
     (case resolve fs root of
        Inl e \<Rightarrow> []
      | Inr key \<Rightarrow> walk fs suffix' root key)"

definition expandRecursivePattern :: "filesystem \<Rightarrow> string \<Rightarrow> error + string list" where
  "expandRecursivePattern fs pattern =
     (let parts = Split pattern ''**'' in
      if length parts \<noteq> 2 then Inl (InvalidRecursivePattern pattern)
      else
        let basePath0 = parts ! 0;
            suffix0 = parts ! 1;
            basePath1 = (if basePath0 \<noteq> [] \<and> HasSuffix basePath0 ''/''
                         then TrimSuffix basePath0 ''/'' else basePath0);
            suffix' = (if suffix0 \<noteq> [] \<and> HasPrefix suffix0 ''/''
                      then TrimPrefix suffix0 ''/'' else suffix0);
            basePath = (if basePath1 = [] then ''.'' else basePath1)
        in case Stat fs basePath of
             Inl e \<Rightarrow> if IsNotExist e then Inr [] else Inr (Walk fs suffix' basePath)
           | Inr info \<Rightarrow> Inr (Walk fs suffix' basePath))"

text \<open>
  \<^verbatim>\<open>filepath.Glob\<close> is taken as an argument \<open>glob\<close>: whatever paths it returns, the
  collector makes them absolute and keeps those that are files, once each.
\<close>

fun addMatches ::
  "filesystem \<Rightarrow> string list \<Rightarrow> string list \<times> string set \<Rightarrow> string list \<times> string set" where
  "addMatches fs [] (allFiles, seenFiles) = (allFiles, seenFiles)"
| "addMatches fs (match # matches) (allFiles, seenFiles) =
     (let absPath = Abs (Getwd fs) match in
      case Stat fs absPath of
        Inl e \<Rightarrow> addMatches fs matches (allFiles, seenFiles)
      | Inr info \<Rightarrow>
          if IsDir info then addMatches fs matches (allFiles, seenFiles)
          else if absPath \<notin> seenFiles
          then addMatches fs matches (allFiles @ [absPath], insert absPath seenFiles)
          else addMatches fs matches (allFiles, seenFiles))"

fun collectFrom ::
  "(filesystem \<Rightarrow> string \<Rightarrow> error + string list) \<Rightarrow> filesystem \<Rightarrow> string list \<Rightarrow>
   string list \<times> string set \<Rightarrow> error + string list" where
  "collectFrom glob fs [] (allFiles, seenFiles) = Inr allFiles"
| "collectFrom glob fs (pattern # patterns) (allFiles, seenFiles) =
     (case (if Contains pattern ''**'' then expandRecursivePattern fs pattern
            else glob fs pattern) of
        Inl err \<Rightarrow> Inl (InvalidPattern_in pattern err)
      | Inr matches \<Rightarrow>
          collectFrom glob fs patterns (addMatches fs matches (allFiles, seenFiles)))"

definition collectFilesByPatterns ::
  "(filesystem \<Rightarrow> string \<Rightarrow> error + string list) \<Rightarrow> filesystem \<Rightarrow> string list \<Rightarrow>
   error + string list" where
  "collectFilesByPatterns glob fs patterns = collectFrom glob fs patterns ([], {})"

text \<open>
  The inner loop of \<open>collectFilesByPatternsWithExclude\<close>: the exclude patterns in
  order, up to the first that matches the file name or is malformed.
\<close>

fun shouldExclude :: "string list \<Rightarrow> string \<Rightarrow> error + bool" where
  "shouldExclude [] fileName = Inr False"
| "shouldExclude (excludePattern # excludePatterns) fileName =
     (case Match excludePattern fileName of
        Inl err \<Rightarrow> Inl (InvalidExcludePattern excludePattern err)
      | Inr matched \<Rightarrow>
          if matched then Inr True else shouldExclude excludePatterns fileName)"

fun filterFiles :: "string list \<Rightarrow> string list \<Rightarrow> string list \<Rightarrow> error + string list" where
  "filterFiles excludePatterns [] filteredFiles = Inr filteredFiles"
| "filterFiles excludePatterns (file # files) filteredFiles =
     (case shouldExclude excludePatterns (Base file) of
        Inl err \<Rightarrow> Inl err
      | Inr exclude \<Rightarrow>
          filterFiles excludePatterns files
            (if \<not> exclude then filteredFiles @ [file] else filteredFiles))"

definition collectFilesByPatternsWithExclude ::
  "(filesystem \<Rightarrow> string \<Rightarrow> error + string list) \<Rightarrow> filesystem \<Rightarrow> string list \<Rightarrow>
   string list \<Rightarrow> error + string list" where
  "collectFilesByPatternsWithExclude glob fs includePatterns excludePatterns =
     (case collectFilesByPatterns glob fs includePatterns of
        Inl err \<Rightarrow> Inl err
      | Inr allFiles \<Rightarrow>
          if length excludePatterns = 0 then Inr allFiles
          else filterFiles excludePatterns allFiles [])"

section \<open>Archives (internal/utils/files.go and the archive functions)\<close>

text \<open>
  What \<^verbatim>\<open>archive/tar\<close> writes and reads is a sequence of entries: a header (name, type,
  mode, size) and the bytes that follow it. The byte format of tar and gzip belongs to
  the Go library and is an argument of the model: \<open>tarGzEncode\<close> gives the bytes that
  the closed writers leave in the output file, \<open>tarGzDecode\<close> what the readers find
  in a file: an error of \<^verbatim>\<open>gzip.NewReader\<close>, or the entries that \<^verbatim>\<open>tarReader.Next\<close>
  yields, ended by \<^verbatim>\<open>io.EOF\<close> (\<open>None\<close>) or by a read error.
\<close>

datatype typeflag = TypeReg | TypeDir | TypeOther

record tar_entry =
  hdrName :: string
  Typeflag :: typeflag
  Mode :: nat
  Size :: nat
  Data :: string

record tar_gz =
  tarGzEncode :: "tar_entry list \<Rightarrow> string"
  tarGzDecode :: "string \<Rightarrow> error + (tar_entry list \<times> error option)"

definition codec_contract :: "tar_gz \<Rightarrow> bool" where
  "codec_contract codec \<longleftrightarrow>
     (\<forall>entries. tarGzDecode codec (tarGzEncode codec entries) = Inr (entries, None))"





definition extractFileFromTar ::
  "filesystem \<Rightarrow> tar_entry \<Rightarrow> string \<Rightarrow> filesystem \<times> error option" where
  "extractFileFromTar fs header outputDir =
     (let targetPath = Join [outputDir, hdrName header];
          cleanOutputDir = Clean outputDir;
          cleanTargetPath = Clean targetPath
      in if \<not> HasPrefix cleanTargetPath (cleanOutputDir @ ''/'') \<and>
            cleanTargetPath \<noteq> cleanOutputDir
         then (fs, Some (IllegalFilePath targetPath))
         else
           (case Typeflag header of
              TypeDir \<Rightarrow>
                (case MkdirAll fs targetPath (Mode header) of
                   (fs', Some e) \<Rightarrow> (fs', Some (FailedToCreateDirectory (PathError e)))
                 | (fs', None) \<Rightarrow> (fs', None))
            | TypeReg \<Rightarrow>
                (case MkdirAll fs (Dir targetPath) 493 of
                   (fs', Some e) \<Rightarrow> (fs', Some (FailedToCreateParentDirectory (PathError e)))
                 | (fs', None) \<Rightarrow>
                     (case OpenFile_create fs' targetPath (Mode header) of
                        Inl e \<Rightarrow> (fs', Some (FailedToCreateFile (PathError e)))
                      | Inr (fs'', outFile) \<Rightarrow> (writeAll fs'' outFile (Data header), None)))
            | TypeOther \<Rightarrow> (fs, None)))"

fun extractEntries ::
  "filesystem \<Rightarrow> tar_entry list \<Rightarrow> error option \<Rightarrow> string \<Rightarrow> filesystem \<times> error option" where
  "extractEntries fs [] readError outputDir =
     (case readError of
        None \<Rightarrow> (fs, None)
      | Some err \<Rightarrow> (fs, Some (FailedToReadTarHeader err)))"
| "extractEntries fs (header # entries) readError outputDir =
     (case extractFileFromTar fs header outputDir of
        (fs', Some err) \<Rightarrow> (fs', Some (FailedToExtractFile (hdrName header) err))
      | (fs', None) \<Rightarrow> extractEntries fs' entries readError outputDir)"

definition ExtractTarGz ::
  "tar_gz \<Rightarrow> filesystem \<Rightarrow> string \<Rightarrow> string \<Rightarrow> filesystem \<times> error option" where
  "ExtractTarGz codec fs archivePath outputDir =
     (case Stat fs archivePath of
        Inl e \<Rightarrow> (fs, Some (FailedToOpenArchive (PathError e)))
      | Inr (DirNode m) \<Rightarrow> (fs, Some (FailedToCreateGzipReader (PathError EISDIR)))
      | Inr (FileNode m bytes) \<Rightarrow>
          (case tarGzDecode codec bytes of
             Inl err \<Rightarrow> (fs, Some (FailedToCreateGzipReader err))
           | Inr (entries, readError) \<Rightarrow> extractEntries fs entries readError outputDir))"

section \<open>Notions used to state the archive properties\<close>

text \<open>
  The walk root of a recursive pattern: the text before the first \<^verbatim>\<open>**\<close> without its
  trailing slash, or the current directory when that is empty.
\<close>

definition walkRoot :: "string \<Rightarrow> string" where
  "walkRoot pattern =
     (let before = TrimSuffix (hd (Split pattern ''**'')) ''/''
      in if before = [] then ''.'' else before)"

text \<open>
  The check of the specification on an entry name: the cleaned join of the output
  directory and the name is the cleaned output directory, or has the cleaned output
  directory followed by a separator as a prefix.
\<close>

definition withinOutputDir :: "string \<Rightarrow> string \<Rightarrow> bool" where
  "withinOutputDir outputDir name =
     (Clean (Join [outputDir, name]) = Clean outputDir \<or>
      HasPrefix (Clean (Join [outputDir, name])) (Clean outputDir @ ''/''))"

text \<open>The exclude patterns that match the base name of a file.\<close>

definition excludedBy :: "string list \<Rightarrow> string \<Rightarrow> bool" where
  "excludedBy excludePatterns file =
     list_ex (\<lambda>p. Match p (Base file) = Inr True) excludePatterns"

text \<open>
  A separator outside the character classes of a pattern. The pattern is read from the
  left; a backslash quotes the character after it; a bracket opens a class, which the
  next closing bracket closes. The separator counts when no class is open, quoted or
  not.
\<close>

fun separatorOutside :: "bool \<Rightarrow> string \<Rightarrow> bool" where
  "separatorOutside inClass [] = False"
| "separatorOutside inClass (c # cs) =
     (if c = CHR 0x5C then
        (case cs of
           [] \<Rightarrow> False
         | d # ds \<Rightarrow> (d = CHR ''/'' \<and> \<not> inClass) \<or> separatorOutside inClass ds)
      else if inClass then separatorOutside (c \<noteq> CHR '']'') cs
      else c = CHR ''/'' \<or> separatorOutside (c = CHR ''['') cs)"

definition separatorOutsideClass :: "string \<Rightarrow> bool" where
  "separatorOutsideClass pattern = separatorOutside False pattern"

text \<open>\<^verbatim>\<open>os.ReadFile\<close>: the bytes of the file at a path.\<close>

definition ReadFile :: "filesystem \<Rightarrow> string \<Rightarrow> errno + string" where
  "ReadFile fs path =
     (case Stat fs path of
        Inl e \<Rightarrow> Inl e
      | Inr (DirNode m) \<Rightarrow> Inl EISDIR
      | Inr (FileNode m bytes) \<Rightarrow> Inr bytes)"







text \<open>
  A file system \<open>fs'\<close> keeps \<open>fs\<close> outside the places \<open>K\<close>: the working directory
  is the same, every node of \<open>fs\<close> outside \<open>K\<close> is unchanged, and every directory of
  \<open>fs\<close> is still a directory with the same mode.
\<close>

definition keeps :: "filesystem \<Rightarrow> filesystem \<Rightarrow> string list set \<Rightarrow> bool" where
  "keeps fs fs' K \<longleftrightarrow>
     cwd fs' = cwd fs \<and>
     (\<forall>k n. k \<notin> K \<longrightarrow> lookup fs k = Some n \<longrightarrow> lookup fs' k = Some n) \<and>
     (\<forall>k m. lookup fs k = Some (DirNode m) \<longrightarrow> lookup fs' k = Some (DirNode m))"

subsection \<open>A codec that keeps the contract\<close>

text \<open>
  To apply the theorems that assume \<open>codec_contract\<close>, here is a byte format that
  keeps it: numbers in unary, strings preceded by their length, an archive as the
  number of its entries followed by the entries.
\<close>

definition encNat :: "nat \<Rightarrow> string" where
  "encNat n = replicate n (CHR ''1'') @ ''0''"

fun decNat :: "string \<Rightarrow> (nat \<times> string) option" where
  "decNat [] = None"
| "decNat (c # cs) =
     (if c = CHR ''1'' then
        (case decNat cs of None \<Rightarrow> None | Some (n, rest) \<Rightarrow> Some (Suc n, rest))
      else if c = CHR ''0'' then Some (0, cs)
      else None)"

definition encString :: "string \<Rightarrow> string" where
  "encString s = encNat (length s) @ s"

definition decString :: "string \<Rightarrow> (string \<times> string) option" where
  "decString bytes =
     (case decNat bytes of
        None \<Rightarrow> None
      | Some (n, rest) \<Rightarrow> if length rest < n then None else Some (take n rest, drop n rest))"

fun encFlag :: "typeflag \<Rightarrow> string" where
  "encFlag TypeReg = ''r''"
| "encFlag TypeDir = ''d''"
| "encFlag TypeOther = ''o''"

fun decFlag :: "string \<Rightarrow> (typeflag \<times> string) option" where
  "decFlag [] = None"
| "decFlag (c # cs) =
     (if c = CHR ''r'' then Some (TypeReg, cs)
      else if c = CHR ''d'' then Some (TypeDir, cs)
      else if c = CHR ''o'' then Some (TypeOther, cs)
      else None)"

definition encEntry :: "tar_entry \<Rightarrow> string" where
  "encEntry e =
     encString (hdrName e) @ encFlag (Typeflag e) @ encNat (Mode e) @ encNat (Size e) @
     encString (Data e)"

definition decEntry :: "string \<Rightarrow> (tar_entry \<times> string) option" where
  "decEntry bytes =
     (case decString bytes of
        None \<Rightarrow> None
      | Some (name, r1) \<Rightarrow>
          (case decFlag r1 of
             None \<Rightarrow> None
           | Some (flag, r2) \<Rightarrow>
               (case decNat r2 of
                  None \<Rightarrow> None
                | Some (m, r3) \<Rightarrow>
                    (case decNat r3 of
                       None \<Rightarrow> None
                     | Some (sz, r4) \<Rightarrow>
                         (case decString r4 of
                            None \<Rightarrow> None
                          | Some (bytes', r5) \<Rightarrow>
                              Some (\<lparr>hdrName = name, Typeflag = flag, Mode = m, Size = sz,
                                     Data = bytes'\<rparr>, r5))))))"

fun decEntries :: "nat \<Rightarrow> string \<Rightarrow> tar_entry list \<times> error option" where
  "decEntries 0 bytes = ([], if bytes = [] then None else Some CorruptArchive)"
| "decEntries (Suc n) bytes =
     (case decEntry bytes of
        None \<Rightarrow> ([], Some CorruptArchive)
      | Some (e, rest) \<Rightarrow> (case decEntries n rest of (es, err) \<Rightarrow> (e # es, err)))"

definition framing :: tar_gz where
  "framing =
     \<lparr>tarGzEncode = (\<lambda>entries. encNat (length entries) @ concat (map encEntry entries)),
      tarGzDecode = (\<lambda>bytes. case decNat bytes of
                                None \<Rightarrow> Inl CorruptArchive
                              | Some (n, rest) \<Rightarrow> Inr (decEntries n rest))\<rparr>"

subsection \<open>An example file system\<close>

text \<open>
  The working directory \<^verbatim>\<open>/w\<close> holds \<^verbatim>\<open>a.txt\<close> and \<^verbatim>\<open>sub/b.go\<close>; \<^verbatim>\<open>/x/c.txt\<close> lies
  outside it. The umask is 022.
\<close>

definition exampleFS :: filesystem where
  "exampleFS =
     \<lparr>nodes = [([''w''], DirNode 493),
               ([''w'', ''a.txt''], FileNode 420 ''hello''),
               ([''w'', ''sub''], DirNode 493),
               ([''w'', ''sub'', ''b.go''], FileNode 420 ''package b''),
               ([''x''], DirNode 493),
               ([''x'', ''c.txt''], FileNode 420 ''outside'')],
      cwd = [''w''], umask = 18\<rparr>"


text \<open>
  An archive in the working directory of the example: a harmless entry followed by
  one that tries to leave the output directory.
\<close>

definition goodEntry :: tar_entry where
  "goodEntry = \<lparr>hdrName = ''d/f.txt'', Typeflag = TypeReg, Mode = 420, Size = 2, Data = ''hi''\<rparr>"

definition evilEntry :: tar_entry where
  "evilEntry = \<lparr>hdrName = ''../../etc/passwd'', Typeflag = TypeReg, Mode = 420, Size = 4,
                 Data = ''root''\<rparr>"

definition archiveFS :: filesystem where
  "archiveFS =
     store exampleFS [''w'', ''pkg.tar.gz'']
       (FileNode 420 (tarGzEncode framing [goodEntry, evilEntry]))"



section \<open>Sorting\<close>

lemma versionGreater_swo: "strict_weak_order versionGreater"
  unfolding strict_weak_order_def versionGreater_def Compare_def
  by (auto split: if_splits)

lemma set_insertLeft: "set (insertLeft lt x ys) = insert x (set ys)"
  by (induction ys) auto

lemma mset_insertLeft: "mset (insertLeft lt x ys) = add_mset x (mset ys)"
  by (induction ys) auto

lemma sorted_insertLeft:
  assumes "strict_weak_order lt" and "sorted_wrt (\<lambda>a b. \<not> lt a b) ys"
  shows "sorted_wrt (\<lambda>a b. \<not> lt a b) (insertLeft lt x ys)"
  using assms(2)
proof (induction ys)
  case Nil
  then show ?case by simp
next
  case (Cons y ys)
  from assms(1) have asym: "\<And>a b. lt a b \<Longrightarrow> \<not> lt b a"
    and ntrans: "\<And>a b c. \<not> lt b a \<Longrightarrow> \<not> lt c b \<Longrightarrow> \<not> lt c a"
    unfolding strict_weak_order_def by blast+
  show ?case
  proof (cases "lt x y")
    case True
    with Cons asym show ?thesis by (auto simp: set_insertLeft)
  next
    case False
    with Cons ntrans show ?thesis by auto
  qed
qed

lemma foldl_insertLeft:
  assumes "strict_weak_order lt" and "sorted_wrt (\<lambda>a b. \<not> lt a b) acc"
  shows "sorted_wrt (\<lambda>a b. \<not> lt a b) (foldl (\<lambda>sorted x. insertLeft lt x sorted) acc xs) \<and>
         mset (foldl (\<lambda>sorted x. insertLeft lt x sorted) acc xs) = mset acc + mset xs"
  using assms(2)
proof (induction xs arbitrary: acc)
  case Nil
  then show ?case by simp
next
  case (Cons x xs)
  have "sorted_wrt (\<lambda>a b. \<not> lt a b) (insertLeft lt x acc)"
    using sorted_insertLeft [OF assms(1) Cons.prems] .
  from Cons.IH [OF this] show ?case by (simp add: mset_insertLeft)
qed

lemma insertionSort_contract: "sort_Slice_contract insertionSort"
  unfolding sort_Slice_contract_def insertionSort_def
proof (intro allI impI)
  fix lt :: "'a \<Rightarrow> 'a \<Rightarrow> bool" and xs
  assume swo: "strict_weak_order lt"
  have "sorted_wrt (\<lambda>a b. \<not> lt a b) []" by simp
  from foldl_insertLeft [OF swo this, of xs]
  show "mset (rev (foldl (\<lambda>sorted x. insertLeft lt x sorted) [] xs)) = mset xs \<and>
        sorted_wrt (\<lambda>a b. \<not> lt b a) (rev (foldl (\<lambda>sorted x. insertLeft lt x sorted) [] xs))"
    by (simp add: sorted_wrt_rev)
qed

lemma shape_length:
  assumes "matchesShape name file"
  shows "length name + 1 \<le> length file - 7"
proof (rule ccontr)
  assume neg: "\<not> length name + 1 \<le> length file - 7"
  from assms obtain r where r: "file = (name @ ''-'') @ r"
    unfolding matchesShape_def HasPrefix_def prefix_def by blast
  from assms obtain q where q: "file = q @ ''.tar.gz''"
    unfolding matchesShape_def HasSuffix_def suffix_def by blast
  have lq: "length q = length file - 7" using q by simp
  have lf: "length name < length file" using r by simp
  have dash: "file ! length name = CHR ''-''" using r by (simp add: nth_append)
  have le: "length q \<le> length name" using neg lq by simp
  have "(q @ ''.tar.gz'') ! length name = ''.tar.gz'' ! (length name - length q)"
    using le by (simp only: nth_append) simp
  then have eq: "file ! length name = ''.tar.gz'' ! (length name - length q)"
    using q by simp
  have "length name - length q < length ''.tar.gz''" using lf q by simp
  then have "''.tar.gz'' ! (length name - length q) \<in> set ''.tar.gz''"
    by (rule nth_mem)
  then have "CHR ''-'' \<in> set ''.tar.gz''"
    unfolding eq [symmetric] dash .
  then show False by simp
qed

section \<open>The candidate scan\<close>

lemma extractVersionFromFilename_shape:
  assumes "matchesShape name file"
  shows "extractVersionFromFilename file name = Inr (embeddedVersion name file)"
proof -
  have len: "length ''.tar.gz'' = 7" by simp
  from shape_length [OF assms]
  have "\<not> length file - 7 < length (name @ ''-'')" by simp
  with assms show ?thesis
    unfolding extractVersionFromFilename_def matchesShape_def embeddedVersion_def Let_def len
    by simp
qed

lemma scanFiles_eq:
  "scanFiles name files out candidates =
     (out @ List.map_filter (warningOf name) files,
      Inr (candidates @ List.map_filter (candidateOf name) files))"
proof (induction files arbitrary: out candidates)
  case Nil
  show ?case by (simp add: List.map_filter_simps)
next
  case (Cons f files)
  show ?case
  proof (cases "matchesShape name f")
    case False
    then show ?thesis
      using Cons.IH
      by (cases "HasPrefix f (name @ ''-'')"; cases "HasSuffix f ''.tar.gz''")
        (simp_all add: matchesShape_def candidateOf_def warningOf_def List.map_filter_simps)
  next
    case True
    then have sh: "HasPrefix f (name @ ''-'') \<and> HasSuffix f ''.tar.gz''"
      by (simp add: matchesShape_def)
    show ?thesis
    proof (cases "parseVersion (embeddedVersion name f)")
      case (Inl err)
      then show ?thesis
        using True sh Cons.IH extractVersionFromFilename_shape [OF True]
        by (simp add: candidateOf_def warningOf_def List.map_filter_simps)
    next
      case (Inr version)
      then show ?thesis
        using True sh Cons.IH extractVersionFromFilename_shape [OF True]
        by (simp add: candidateOf_def warningOf_def List.map_filter_simps)
    qed
  qed
qed

lemma candidate_iff:
  "c \<in> set (List.map_filter (candidateOf name) files) \<longleftrightarrow>
     Filename c \<in> set files \<and> matchesShape name (Filename c) \<and>
     parseVersion (embeddedVersion name (Filename c)) = Inr (CandidateVersion c)"
  by (induction files)
    (auto simp: List.map_filter_simps candidateOf_def split: if_splits sum.splits)

lemma warning_iff:
  "w \<in> set (List.map_filter (warningOf name) files) \<longleftrightarrow>
     (\<exists>file err. w = WarningInvalidVersionFormat file err \<and> file \<in> set files \<and>
        matchesShape name file \<and> parseVersion (embeddedVersion name file) = Inl err)"
  by (induction files)
    (auto simp: List.map_filter_simps warningOf_def split: if_splits sum.splits)

lemma valid_candidate_iff:
  "c \<in> set (filter (\<lambda>c. satisfiesConstraint (CandidateVersion c) constraint)
            (List.map_filter (candidateOf name) files)) \<longleftrightarrow>
     Filename c \<in> set files \<and> satisfying name constraint (Filename c) (CandidateVersion c)"
  by (auto simp: candidate_iff satisfying_def)

lemma findBestPackageVersion_unfold:
  "findBestPackageVersion sort_Slice (Inr files) \<lparr>Name = name, Constraint = constraint\<rparr> =
     (let out = List.map_filter (warningOf name) files;
          candidates = List.map_filter (candidateOf name) files in
      if candidates = [] then (out, Inl (NoPackagesFoundFor name))
      else
        let out' = out @ [FoundCandidates (length candidates) name]
                     @ map (\<lambda>c. CandidateLine (Filename c) (String (CandidateVersion c)))
                         candidates;
            validCandidates =
              filter (\<lambda>c. satisfiesConstraint (CandidateVersion c) constraint) candidates
        in if validCandidates = []
           then (out', Inl (NoPackagesMatchingConstraint name constraint))
           else
             (case sort_Slice versionGreater validCandidates of
                [] \<Rightarrow> (out', Inl PanicOutOfRange)
              | selected # rest \<Rightarrow>
                  (out' @ [Selected (Filename selected) (String (CandidateVersion selected))
                             (length validCandidates)],
                   Inr (Filename selected))))"
  by (simp add: findBestPackageVersion_def scanFiles_eq Let_def)

section \<open>Version parsing and comparison\<close>

lemmas version_eval =
  trimLeading.simps Split_def Atoi_def isDigit_def digitValue_def parseVersion_def Let_def HasPrefix_def
  HasSuffix_def TrimSpace_def whiteSpace_def Compare_def satisfiesConstraint_def

lemma parseVersion_Inl_kind: "parseVersion s = Inl e \<Longrightarrow> kind_of e = InvalidFormat"
  unfolding parseVersion_def Let_def
  by (auto split: if_splits option.splits)

lemma parseVersion_Raw: "parseVersion s = Inr v \<Longrightarrow> Raw v = s"
  unfolding parseVersion_def Let_def
  by (auto split: if_splits option.splits)

lemma parseVersion_two_parts:
  "parseVersion s = Inr v \<Longrightarrow> length (Split s ''.'') = 2 \<Longrightarrow> Patch v = 0"
  unfolding parseVersion_def Let_def
  by (auto split: if_splits option.splits)

lemma parseVersion_components:
  "parseVersion s = Inr v \<Longrightarrow>
     Atoi (Split s ''.'' ! 0) = Some (Major v) \<and> Atoi (Split s ''.'' ! 1) = Some (Minor v) \<and>
     (length (Split s ''.'') = 3 \<longrightarrow> Atoi (Split s ''.'' ! 2) = Some (Patch v)) \<and>
     0 \<le> Major v \<and> 0 \<le> Minor v \<and> 0 \<le> Patch v"
  unfolding parseVersion_def Let_def
  by (auto split: if_splits option.splits)

subsection \<open>The parser and the notions of the specification\<close>

lemma dotParts_nonempty: "dotParts s \<noteq> []"
  by (induction s) (auto split: list.splits)

lemma Split_from_dot:
  "Split_from ''.'' acc s = (rev acc @ hd (dotParts s)) # tl (dotParts s)"
  by (induction s arbitrary: acc) (auto simp: dotParts_nonempty split: list.splits)

lemma Split_dot: "Split s ''.'' = dotParts s"
  using dotParts_nonempty [of s] by (simp add: Split_def Split_from_dot)

lemma decimalDigit_cases:
  "decimalDigit c \<longleftrightarrow>
     c = CHR ''0'' \<or> c = CHR ''1'' \<or> c = CHR ''2'' \<or> c = CHR ''3'' \<or> c = CHR ''4'' \<or>
     c = CHR ''5'' \<or> c = CHR ''6'' \<or> c = CHR ''7'' \<or> c = CHR ''8'' \<or> c = CHR ''9''"
  by (auto simp: decimalDigit_def)

lemma isDigit_digits:
  "isDigit CHR ''0''" "isDigit CHR ''1''" "isDigit CHR ''2''" "isDigit CHR ''3''"
  "isDigit CHR ''4''" "isDigit CHR ''5''" "isDigit CHR ''6''" "isDigit CHR ''7''"
  "isDigit CHR ''8''" "isDigit CHR ''9''"
  by (simp_all add: isDigit_def)

lemma digit_codes:
  "of_char CHR ''0'' = (48::nat)" "of_char CHR ''1'' = (49::nat)" "of_char CHR ''2'' = (50::nat)"
  "of_char CHR ''3'' = (51::nat)" "of_char CHR ''4'' = (52::nat)" "of_char CHR ''5'' = (53::nat)"
  "of_char CHR ''6'' = (54::nat)" "of_char CHR ''7'' = (55::nat)" "of_char CHR ''8'' = (56::nat)"
  "of_char CHR ''9'' = (57::nat)"
  by simp_all

lemma isDigit_decimalDigit: "isDigit c \<longleftrightarrow> decimalDigit c"
proof
  assume "decimalDigit c"
  then show "isDigit c" unfolding decimalDigit_cases using isDigit_digits by blast
next
  assume d: "isDigit c"
  define n where "n = (of_char c :: nat)"
  from d have "48 \<le> n" "n \<le> 57" by (simp_all add: isDigit_def n_def)
  then have "n = 48 \<or> n = 49 \<or> n = 50 \<or> n = 51 \<or> n = 52 \<or> n = 53 \<or> n = 54 \<or> n = 55 \<or>
             n = 56 \<or> n = 57" by arith
  then have "of_char c = (of_char CHR ''0'' :: nat) \<or> of_char c = (of_char CHR ''1'' :: nat) \<or>
      of_char c = (of_char CHR ''2'' :: nat) \<or> of_char c = (of_char CHR ''3'' :: nat) \<or>
      of_char c = (of_char CHR ''4'' :: nat) \<or> of_char c = (of_char CHR ''5'' :: nat) \<or>
      of_char c = (of_char CHR ''6'' :: nat) \<or> of_char c = (of_char CHR ''7'' :: nat) \<or>
      of_char c = (of_char CHR ''8'' :: nat) \<or> of_char c = (of_char CHR ''9'' :: nat)"
    unfolding digit_codes n_def .
  then show "decimalDigit c"
    unfolding decimalDigit_cases of_char_eq_iff .
qed

lemma digitOf_digits:
  "digitOf CHR ''0'' = 0" "digitOf CHR ''1'' = 1" "digitOf CHR ''2'' = 2" "digitOf CHR ''3'' = 3"
  "digitOf CHR ''4'' = 4" "digitOf CHR ''5'' = 5" "digitOf CHR ''6'' = 6" "digitOf CHR ''7'' = 7"
  "digitOf CHR ''8'' = 8" "digitOf CHR ''9'' = 9"
  by (simp_all add: digitOf_def)

lemma digitValue_digits:
  "digitValue CHR ''0'' = 0" "digitValue CHR ''1'' = 1" "digitValue CHR ''2'' = 2"
  "digitValue CHR ''3'' = 3" "digitValue CHR ''4'' = 4" "digitValue CHR ''5'' = 5"
  "digitValue CHR ''6'' = 6" "digitValue CHR ''7'' = 7" "digitValue CHR ''8'' = 8"
  "digitValue CHR ''9'' = 9"
  by (simp_all add: digitValue_def)

lemma digitValue_digitOf: "decimalDigit c \<Longrightarrow> digitValue c = digitOf c"
  unfolding decimalDigit_cases
  by (elim disjE) (simp_all only: digitOf_digits digitValue_digits)

lemma parseDigits_iff:
  "parseDigits n ds = Some m \<longleftrightarrow>
     list_all decimalDigit ds \<and> m = n * 10 ^ length ds + numeralValue ds"
proof (induction ds arbitrary: n)
  case Nil
  then show ?case by auto
next
  case (Cons c ds)
  show ?case
  proof (cases "decimalDigit c")
    case True
    then show ?thesis
      by (simp add: Cons.IH isDigit_decimalDigit digitValue_digitOf algebra_simps)
  next
    case False
    then show ?thesis by (simp add: isDigit_decimalDigit)
  qed
qed

lemma Atoi_body:
  "Atoi p =
     (if unsignedPart p = [] then None
      else
        (case parseDigits 0 (unsignedPart p) of
           None \<Rightarrow> None
         | Some n \<Rightarrow>
             if hd p = CHR ''-''
             then (if 9223372036854775808 < n then None else Some (- int n))
             else (if 9223372036854775808 \<le> n then None else Some (int n))))"
proof (cases p)
  case Nil
  then show ?thesis by (simp add: Atoi_def unsignedPart_def)
next
  case (Cons c cs)
  have u: "unsignedPart p = (if c = CHR ''-'' \<or> c = CHR ''+'' then cs else p)"
    using Cons by (auto simp: unsignedPart_def)
  have "Atoi p =
     (let neg = (c = CHR ''-''); body = (if c = CHR ''-'' \<or> c = CHR ''+'' then cs else p)
      in if body = [] then None
         else
          (case parseDigits 0 body of
             None \<Rightarrow> None
           | Some n \<Rightarrow>
               if neg then (if 9223372036854775808 < n then None else Some (- int n))
               else (if 9223372036854775808 \<le> n then None else Some (int n))))"
    unfolding Atoi_def Cons by (simp only: list.case)
  then have a: "Atoi p =
     (if unsignedPart p = [] then None
      else
        (case parseDigits 0 (unsignedPart p) of
           None \<Rightarrow> None
         | Some n \<Rightarrow>
             if c = CHR ''-''
             then (if 9223372036854775808 < n then None else Some (- int n))
             else (if 9223372036854775808 \<le> n then None else Some (int n))))"
    unfolding u [symmetric] Let_def .
  have h: "hd p = c" using Cons by simp
  show ?thesis unfolding h by (rule a)
qed

lemma Atoi_iff:
  "Atoi p = Some n \<longleftrightarrow>
     decimalNumeral (unsignedPart p) \<and>
     (if hd p = CHR ''-''
      then numeralValue (unsignedPart p) \<le> 9223372036854775808 \<and>
           n = - int (numeralValue (unsignedPart p))
      else numeralValue (unsignedPart p) < 9223372036854775808 \<and>
           n = int (numeralValue (unsignedPart p)))"
proof (cases "unsignedPart p = []")
  case True
  then show ?thesis by (simp add: Atoi_body decimalNumeral_def)
next
  case False
  show ?thesis
  proof (cases "list_all decimalDigit (unsignedPart p)")
    case True
    then have "parseDigits 0 (unsignedPart p) = Some (numeralValue (unsignedPart p))"
      unfolding parseDigits_iff by simp
    with False True show ?thesis
      unfolding Atoi_body decimalNumeral_def by auto
  next
    case nd: False
    then have "parseDigits 0 (unsignedPart p) = None"
      by (cases "parseDigits 0 (unsignedPart p)") (simp_all add: parseDigits_iff)
    with False nd show ?thesis
      unfolding Atoi_body decimalNumeral_def by simp
  qed
qed

lemma Atoi_accepted:
  "(\<exists>n. Atoi p = Some n \<and> 0 \<le> n) \<longleftrightarrow> acceptedPart p"
  by (auto simp: Atoi_iff acceptedPart_def)

lemma Atoi_partValue:
  "Atoi p = Some n \<Longrightarrow> 0 \<le> n \<Longrightarrow> n = partValue p"
  by (auto simp: Atoi_iff partValue_def split: if_splits)

lemma Atoi_rejected:
  "\<not> acceptedPart p \<Longrightarrow> Atoi p = None \<or> (\<exists>n. Atoi p = Some n \<and> n < 0)"
  using Atoi_accepted [of p] by (cases "Atoi p") (auto simp: not_le)

lemma acceptedPart_Atoi: "acceptedPart p \<Longrightarrow> Atoi p = Some (partValue p)"
  using Atoi_accepted [of p] Atoi_partValue [of p] by blast

lemma parseVersion_accepted:
  assumes "acceptedVersion s"
  shows "parseVersion s =
           Inr \<lparr>Major = partValue (dotParts s ! 0), Minor = partValue (dotParts s ! 1),
                Patch = (if length (dotParts s) = 3 then partValue (dotParts s ! 2) else 0),
                Raw = s\<rparr>"
proof -
  from assms obtain a b rest where p: "dotParts s = a # b # rest"
    and r: "rest = [] \<or> (\<exists>c. rest = [c])"
    unfolding acceptedVersion_def
    by (cases "dotParts s"; cases "tl (dotParts s)"; cases "tl (tl (dotParts s))"; auto)
  from assms p have a: "Atoi a = Some (partValue a)" and b: "Atoi b = Some (partValue b)"
    and rest: "\<forall>c \<in> set rest. Atoi c = Some (partValue c)"
    by (auto simp: acceptedVersion_def acceptedPart_Atoi list_all_iff)
  have nn: "\<not> partValue q < 0" for q by (simp add: partValue_def)
  from r show ?thesis
  proof
    assume "rest = []"
    with p a b nn show ?thesis
      by (simp add: parseVersion_def Split_dot Let_def)
  next
    assume "\<exists>c. rest = [c]"
    then obtain c where c: "rest = [c]" ..
    with rest have "Atoi c = Some (partValue c)" by simp
    with p a b c nn show ?thesis
      by (simp add: parseVersion_def Split_dot Let_def)
  qed
qed

lemma parseVersion_rejected:
  assumes "\<not> acceptedVersion s"
  shows "\<exists>e. parseVersion s = Inl e"
proof (cases "length (dotParts s) = 2 \<or> length (dotParts s) = 3")
  case False
  then show ?thesis by (auto simp: parseVersion_def Split_dot Let_def)
next
  case True
  then obtain a b rest where p: "dotParts s = a # b # rest"
    and r: "rest = [] \<or> (\<exists>c. rest = [c])"
    by (cases "dotParts s"; cases "tl (dotParts s)"; cases "tl (tl (dotParts s))"; auto)
  from assms True p have bad: "\<not> acceptedPart a \<or> \<not> acceptedPart b \<or>
      (\<exists>c. rest = [c] \<and> \<not> acceptedPart c)"
    using r by (auto simp: acceptedVersion_def)
  show ?thesis
  proof (cases "acceptedPart a")
    case False
    from Atoi_rejected [OF this] p show ?thesis
      by (auto simp: parseVersion_def Split_dot Let_def)
  next
    case a: True
    note A = acceptedPart_Atoi [OF a]
    have nn: "\<not> partValue q < 0" for q by (simp add: partValue_def)
    show ?thesis
    proof (cases "acceptedPart b")
      case False
      from Atoi_rejected [OF this] p A nn show ?thesis
        by (auto simp: parseVersion_def Split_dot Let_def)
    next
      case b: True
      note B = acceptedPart_Atoi [OF b]
      from bad a b obtain c where c: "rest = [c]" "\<not> acceptedPart c" by blast
      from Atoi_rejected [OF c(2)] p c(1) A B nn show ?thesis
        by (auto simp: parseVersion_def Split_dot Let_def)
    qed
  qed
qed

text \<open>
  C6. \<open>parseVersion\<close> succeeds exactly on the strings with two or three dot-separated
  parts, each a decimal numeral that denotes a number below \<open>2\<^sup>6\<^sup>3\<close>, possibly after one
  sign (and denoting zero after a minus sign); every failure is of kind InvalidFormat. A
  successful parse has the numbers that the parts denote as its components, patch 0 for
  a two-part string, and the input verbatim in \<open>Raw\<close>, which \<open>String\<close> returns: parsing
  a valid string and displaying the result gives the string back.
\<close>

theorem parseVersion_accepts:
  "((\<exists>v. parseVersion s = Inr v) \<longleftrightarrow> acceptedVersion s) \<and>
   (\<forall>e. parseVersion s = Inl e \<longrightarrow> kind_of e = InvalidFormat) \<and>
   (acceptedVersion s \<longrightarrow>
      parseVersion s =
        Inr \<lparr>Major = partValue (dotParts s ! 0), Minor = partValue (dotParts s ! 1),
             Patch = (if length (dotParts s) = 3 then partValue (dotParts s ! 2) else 0),
             Raw = s\<rparr>) \<and>
   (\<forall>v. parseVersion s = Inr v \<longrightarrow> Raw v = s \<and> String v = s)"
proof (intro conjI allI impI)
  show "(\<exists>v. parseVersion s = Inr v) \<longleftrightarrow> acceptedVersion s"
  proof
    assume "\<exists>v. parseVersion s = Inr v"
    then obtain v where v: "parseVersion s = Inr v" ..
    show "acceptedVersion s"
    proof (rule ccontr)
      assume "\<not> acceptedVersion s"
      from parseVersion_rejected [OF this] v show False by auto
    qed
  next
    assume "acceptedVersion s"
    from parseVersion_accepted [OF this] show "\<exists>v. parseVersion s = Inr v" by simp
  qed
next
  fix e assume "parseVersion s = Inl e"
  then show "kind_of e = InvalidFormat" by (rule parseVersion_Inl_kind)
next
  assume "acceptedVersion s"
  then show "parseVersion s =
        Inr \<lparr>Major = partValue (dotParts s ! 0), Minor = partValue (dotParts s ! 1),
             Patch = (if length (dotParts s) = 3 then partValue (dotParts s ! 2) else 0),
             Raw = s\<rparr>"
    by (rule parseVersion_accepted)
next
  fix v assume "parseVersion s = Inr v"
  then show "Raw v = s" by (rule parseVersion_Raw)
next
  fix v assume "parseVersion s = Inr v"
  then show "String v = s" by (simp add: String_def parseVersion_Raw)
qed

lemmas numeral_eval = dotParts.simps decimalNumeral_def decimalDigit_def digitOf_def
  numeralValue.simps unsignedPart_def partValue_def acceptedPart_def acceptedVersion_def
  numeralVersion_def

theorem parseVersion_accepts_witness:
  "acceptedVersion ''2.5'' \<and>
   parseVersion ''2.5'' = Inr \<lparr>Major = 2, Minor = 5, Patch = 0, Raw = ''2.5''\<rparr> \<and>
   String \<lparr>Major = 2, Minor = 5, Patch = 0, Raw = ''2.5''\<rparr> = ''2.5'' \<and>
   acceptedVersion ''+1.-0.07'' \<and>
   parseVersion ''+1.-0.07'' = Inr \<lparr>Major = 1, Minor = 0, Patch = 7, Raw = ''+1.-0.07''\<rparr> \<and>
   \<not> acceptedVersion ''1.2.3.4'' \<and>
   parseVersion ''1.2.3.4'' = Inl (InvalidVersionFormat ''1.2.3.4'') \<and>
   kind_of (InvalidVersionFormat ''1.2.3.4'') = InvalidFormat"
proof -
  have a: "acceptedVersion ''2.5''" by (simp add: numeral_eval)
  have b: "acceptedVersion ''+1.-0.07''" by (simp add: numeral_eval)
  have c: "\<not> acceptedVersion ''1.2.3.4''" by (simp add: numeral_eval)
  have q: "parseVersion ''1.2.3.4'' = Inl (InvalidVersionFormat ''1.2.3.4'')"
    by (simp add: version_eval)
  from parseVersion_accepts [of "''2.5''"] a
  have p: "parseVersion ''2.5'' = Inr \<lparr>Major = 2, Minor = 5, Patch = 0, Raw = ''2.5''\<rparr>"
    by (simp add: numeral_eval)
  from parseVersion_accepts [of "''+1.-0.07''"] b
  have r: "parseVersion ''+1.-0.07''
      = Inr \<lparr>Major = 1, Minor = 0, Patch = 7, Raw = ''+1.-0.07''\<rparr>"
    by (simp add: numeral_eval)
  from parseVersion_accepts [of "''2.5''"] p
  have s: "String \<lparr>Major = 2, Minor = 5, Patch = 0, Raw = ''2.5''\<rparr> = ''2.5''" by simp
  from parseVersion_accepts [of "''1.2.3.4''"] q
  have k: "kind_of (InvalidVersionFormat ''1.2.3.4'') = InvalidFormat" by simp
  from a b c p q r s k show ?thesis by simp
qed

theorem parseVersion_accepts_counterexample:
  "numeralVersion ''9223372036854775808.0'' \<and>
   parseVersion ''9223372036854775808.0'' = Inl (InvalidMajorVersion ''9223372036854775808'')"
proof -
  have "numeralVersion ''9223372036854775808.0''" by (simp add: numeral_eval)
  moreover have "parseVersion ''9223372036854775808.0''
      = Inl (InvalidMajorVersion ''9223372036854775808'')"
    by (simp add: version_eval)
  ultimately show ?thesis by simp
qed

text \<open>
  C9. \<open>Compare\<close> looks at the triple (major, minor, patch) only: replacing the raw
  strings changes nothing, and two versions with equal triples compare as 0 whatever
  their raw strings. The versions parsed from \<^verbatim>\<open>"1.5"\<close> and \<^verbatim>\<open>"1.5.0"\<close> have different
  raw strings and compare as 0, and the version parsed from \<^verbatim>\<open>"1.5.0"\<close> satisfies the
  constraint \<^verbatim>\<open>"=1.5"\<close>.
\<close>

theorem Compare_ignores_Raw:
  "Compare (v\<lparr>Raw := r\<rparr>) (w\<lparr>Raw := r'\<rparr>) = Compare v w \<and>
   (Major v = Major w \<and> Minor v = Minor w \<and> Patch v = Patch w \<longrightarrow> Compare v w = 0) \<and>
   (\<exists>a b. parseVersion ''1.5'' = Inr a \<and> parseVersion ''1.5.0'' = Inr b \<and>
      Raw a \<noteq> Raw b \<and> Compare a b = 0 \<and> satisfiesConstraint b ''=1.5'')"
proof -
  have a: "parseVersion ''1.5'' = Inr \<lparr>Major = 1, Minor = 5, Patch = 0, Raw = ''1.5''\<rparr>"
    by (simp add: version_eval)
  have b: "parseVersion ''1.5.0'' = Inr \<lparr>Major = 1, Minor = 5, Patch = 0, Raw = ''1.5.0''\<rparr>"
    by (simp add: version_eval)
  have s: "satisfiesConstraint \<lparr>Major = 1, Minor = 5, Patch = 0, Raw = ''1.5.0''\<rparr> ''=1.5''"
    by (simp add: version_eval)
  have c: "Compare \<lparr>Major = 1, Minor = 5, Patch = 0, Raw = ''1.5''\<rparr>
             \<lparr>Major = 1, Minor = 5, Patch = 0, Raw = ''1.5.0''\<rparr> = 0"
    by (simp add: Compare_def)
  have "\<exists>a b. parseVersion ''1.5'' = Inr a \<and> parseVersion ''1.5.0'' = Inr b \<and>
      Raw a \<noteq> Raw b \<and> Compare a b = 0 \<and> satisfiesConstraint b ''=1.5''"
    using a b s c by simp
  then show ?thesis by (simp add: Compare_def)
qed

theorem Compare_ignores_Raw_witness:
  "Compare \<lparr>Major = 1, Minor = 5, Patch = 0, Raw = ''1.5''\<rparr>
     \<lparr>Major = 1, Minor = 5, Patch = 0, Raw = ''1.5.0''\<rparr> = 0"
  using Compare_ignores_Raw
    [where v = "\<lparr>Major = 1, Minor = 5, Patch = 0, Raw = ''1.5''\<rparr>"
       and w = "\<lparr>Major = 1, Minor = 5, Patch = 0, Raw = ''1.5.0''\<rparr>"]
  by simp



text \<open>
  C4. The empty constraint is satisfied by every version. A constraint that is not
  empty and consists of white space only is trimmed to the empty string, which is then
  parsed as the version to match exactly and fails to parse: the result is \<open>False\<close>.
\<close>

lemma parseVersion_empty: "parseVersion [] = Inl (InvalidVersionFormat [])"
  by (simp add: parseVersion_def Split_def)

lemma find_never: "find (\<lambda>w. False) ws = None"
  by (induction ws) simp_all

lemma trimLeading_Nil: "trimLeading ws [] = []"
  by (simp add: trimLeading.simps [of ws "[]"] find_never)

lemma TrimSpace_Nil: "TrimSpace [] = []"
  by (simp add: TrimSpace_def trimLeading_Nil)

theorem satisfiesConstraint_blank:
  "satisfiesConstraint v [] \<and>
   (c \<noteq> [] \<and> TrimSpace c = [] \<longrightarrow> \<not> satisfiesConstraint v c) \<and>
   TrimSpace '' '' = [] \<and> \<not> satisfiesConstraint v '' ''"
proof -
  have e: "satisfiesConstraint v []"
    by (simp add: satisfiesConstraint_def)
  have g: "\<not> satisfiesConstraint v c" if "c \<noteq> []" and "TrimSpace c = []" for c
    using that
    by (simp add: satisfiesConstraint_def HasPrefix_def TrimSpace_Nil parseVersion_empty)
  have t: "TrimSpace '' '' = []"
    by (simp add: TrimSpace_def whiteSpace_def trimLeading.simps)
  from e g t show ?thesis by simp
qed

theorem satisfiesConstraint_blank_witness:
  "'' '' \<noteq> [] \<and> TrimSpace '' '' = [] \<and>
   \<not> satisfiesConstraint \<lparr>Major = 1, Minor = 2, Patch = 3, Raw = ''1.2.3''\<rparr> '' ''"
  using satisfiesConstraint_blank
    [where v = "\<lparr>Major = 1, Minor = 2, Patch = 3, Raw = ''1.2.3''\<rparr>" and c = "'' ''"]
  by simp

section \<open>Selecting the best version\<close>

lemma map_filter_filter_None:
  "\<forall>x \<in> set xs. \<not> P x \<longrightarrow> g x = None \<Longrightarrow>
   List.map_filter g (filter P xs) = List.map_filter g xs"
  by (induction xs) (auto simp: List.map_filter_simps split: option.splits)

lemma scan_no_candidates_iff:
  "List.map_filter (candidateOf name) files = [] \<longleftrightarrow>
     \<not> (\<exists>f \<in> set files. matchesShape name f \<and>
          (\<exists>v. parseVersion (embeddedVersion name f) = Inr v))"
proof -
  have "List.map_filter (candidateOf name) files = [] \<longleftrightarrow>
        (\<forall>c. c \<notin> set (List.map_filter (candidateOf name) files))"
    by (cases "List.map_filter (candidateOf name) files") auto
  also have "\<dots> \<longleftrightarrow> \<not> (\<exists>f \<in> set files. matchesShape name f \<and>
          (\<exists>v. parseVersion (embeddedVersion name f) = Inr v))"
  proof
    assume none: "\<forall>c. c \<notin> set (List.map_filter (candidateOf name) files)"
    show "\<not> (\<exists>f \<in> set files. matchesShape name f \<and>
          (\<exists>v. parseVersion (embeddedVersion name f) = Inr v))"
    proof
      assume "\<exists>f \<in> set files. matchesShape name f \<and>
          (\<exists>v. parseVersion (embeddedVersion name f) = Inr v)"
      then obtain f v where "f \<in> set files" "matchesShape name f"
        "parseVersion (embeddedVersion name f) = Inr v" by blast
      then have "\<lparr>Filename = f, CandidateVersion = v\<rparr>
          \<in> set (List.map_filter (candidateOf name) files)"
        by (simp add: candidate_iff)
      with none show False by blast
    qed
  next
    assume "\<not> (\<exists>f \<in> set files. matchesShape name f \<and>
          (\<exists>v. parseVersion (embeddedVersion name f) = Inr v))"
    then show "\<forall>c. c \<notin> set (List.map_filter (candidateOf name) files)"
      by (auto simp: candidate_iff)
  qed
  finally show ?thesis .
qed

lemma findBest_kind_NoPackagesFound:
  "(\<exists>e. snd (findBestPackageVersion srt (Inr files) \<lparr>Name = name, Constraint = c\<rparr>) = Inl e \<and>
        kind_of e = NoPackagesFound) \<longleftrightarrow>
   List.map_filter (candidateOf name) files = []"
  unfolding findBestPackageVersion_unfold Let_def
  by (auto split: list.splits)

lemma findBest_warnings:
  "set (List.map_filter (warningOf name) files)
     \<subseteq> set (fst (findBestPackageVersion srt (Inr files) \<lparr>Name = name, Constraint = c\<rparr>))"
  unfolding findBestPackageVersion_unfold Let_def
  by (auto split: list.splits)

lemma findBest_skip_unparseable:
  "findBestPackageVersion srt
       (Inr (filter (\<lambda>f. \<not> (matchesShape name f \<and>
                             (\<exists>e. parseVersion (embeddedVersion name f) = Inl e))) files))
       \<lparr>Name = name, Constraint = c\<rparr> =
   (drop (length (List.map_filter (warningOf name) files))
      (fst (findBestPackageVersion srt (Inr files) \<lparr>Name = name, Constraint = c\<rparr>)),
    snd (findBestPackageVersion srt (Inr files) \<lparr>Name = name, Constraint = c\<rparr>))"
proof -
  let ?P = "\<lambda>f. \<not> (matchesShape name f \<and> (\<exists>e. parseVersion (embeddedVersion name f) = Inl e))"
  have c: "List.map_filter (candidateOf name) (filter ?P files) =
           List.map_filter (candidateOf name) files"
    by (rule map_filter_filter_None) (auto simp: candidateOf_def)
  have w: "List.map_filter (warningOf name) (filter ?P files) = []"
    by (induction files)
      (auto simp: List.map_filter_simps warningOf_def split: sum.splits)
  show ?thesis
    unfolding findBestPackageVersion_unfold Let_def c w
    by (auto split: list.splits)
qed

text \<open>
  C5, as the code has it. \<open>findBestPackageVersion\<close> fails with NoPackagesFound exactly
  when no filename of the listing has the shape \<^verbatim>\<open><packageName>-<version>.tar.gz\<close>
  with an embedded version that parses. A filename of that shape whose version does
  not parse is skipped: a warning is printed for it, and the outcome is the one of the
  listing without such filenames.
\<close>

theorem findBestPackageVersion_NoPackagesFound:
  "((\<exists>e. snd (findBestPackageVersion srt (Inr files) \<lparr>Name = name, Constraint = c\<rparr>) = Inl e \<and>
         kind_of e = NoPackagesFound) \<longleftrightarrow>
    \<not> (\<exists>f \<in> set files. matchesShape name f \<and>
          (\<exists>v. parseVersion (embeddedVersion name f) = Inr v))) \<and>
   (\<forall>f e. f \<in> set files \<and> matchesShape name f \<and>
          parseVersion (embeddedVersion name f) = Inl e \<longrightarrow>
      WarningInvalidVersionFormat f e
        \<in> set (fst (findBestPackageVersion srt (Inr files) \<lparr>Name = name, Constraint = c\<rparr>))) \<and>
   snd (findBestPackageVersion srt
          (Inr (filter (\<lambda>f. \<not> (matchesShape name f \<and>
                                (\<exists>e. parseVersion (embeddedVersion name f) = Inl e))) files))
          \<lparr>Name = name, Constraint = c\<rparr>) =
   snd (findBestPackageVersion srt (Inr files) \<lparr>Name = name, Constraint = c\<rparr>)"
proof -
  have "\<forall>f e. f \<in> set files \<and> matchesShape name f \<and>
          parseVersion (embeddedVersion name f) = Inl e \<longrightarrow>
      WarningInvalidVersionFormat f e
        \<in> set (fst (findBestPackageVersion srt (Inr files) \<lparr>Name = name, Constraint = c\<rparr>))"
    using findBest_warnings [of name files srt c] warning_iff [of _ name files]
    by blast
  then show ?thesis
    using findBest_kind_NoPackagesFound [of srt files name c]
      scan_no_candidates_iff [of name files]
      findBest_skip_unparseable [of srt name files c]
    by simp
qed

lemmas select_eval =
  findBestPackageVersion_unfold matchesShape_def embeddedVersion_def candidateOf_def
  warningOf_def List.map_filter_simps version_eval satisfying_def

theorem findBestPackageVersion_NoPackagesFound_witness:
  "''pkg-1.0.tar.gz'' \<in> set [''pkg-x.tar.gz'', ''pkg-1.0.tar.gz''] \<and>
   matchesShape ''pkg'' ''pkg-1.0.tar.gz'' \<and>
   parseVersion (embeddedVersion ''pkg'' ''pkg-1.0.tar.gz'') =
     Inr \<lparr>Major = 1, Minor = 0, Patch = 0, Raw = ''1.0''\<rparr> \<and>
   matchesShape ''pkg'' ''pkg-x.tar.gz'' \<and>
   parseVersion (embeddedVersion ''pkg'' ''pkg-x.tar.gz'') = Inl (InvalidVersionFormat ''x'') \<and>
   WarningInvalidVersionFormat ''pkg-x.tar.gz'' (InvalidVersionFormat ''x'')
     \<in> set (fst (findBestPackageVersion insertionSort
                   (Inr [''pkg-x.tar.gz'', ''pkg-1.0.tar.gz''])
                   \<lparr>Name = ''pkg'', Constraint = ''''\<rparr>)) \<and>
   \<not> (\<exists>e. snd (findBestPackageVersion insertionSort
                  (Inr [''pkg-x.tar.gz'', ''pkg-1.0.tar.gz''])
                  \<lparr>Name = ''pkg'', Constraint = ''''\<rparr>) = Inl e \<and>
            kind_of e = NoPackagesFound)"
proof -
  have m1: "matchesShape ''pkg'' ''pkg-1.0.tar.gz''"
    by (simp add: matchesShape_def HasPrefix_def HasSuffix_def suffix_Cons)
  have p1: "parseVersion (embeddedVersion ''pkg'' ''pkg-1.0.tar.gz'') =
     Inr \<lparr>Major = 1, Minor = 0, Patch = 0, Raw = ''1.0''\<rparr>"
    by (simp add: embeddedVersion_def version_eval)
  have m2: "matchesShape ''pkg'' ''pkg-x.tar.gz''"
    by (simp add: matchesShape_def HasPrefix_def HasSuffix_def suffix_Cons)
  have p2: "parseVersion (embeddedVersion ''pkg'' ''pkg-x.tar.gz'') =
     Inl (InvalidVersionFormat ''x'')"
    by (simp add: embeddedVersion_def version_eval)
  have i: "''pkg-1.0.tar.gz'' \<in> set [''pkg-x.tar.gz'', ''pkg-1.0.tar.gz'']"
    and j: "''pkg-x.tar.gz'' \<in> set [''pkg-x.tar.gz'', ''pkg-1.0.tar.gz'']"
    by simp_all
  note t = findBestPackageVersion_NoPackagesFound
    [where srt = insertionSort and files = "[''pkg-x.tar.gz'', ''pkg-1.0.tar.gz'']"
       and name = "''pkg''" and c = "''''"]
  from t i m1 p1 have a: "\<not> (\<exists>e. snd (findBestPackageVersion insertionSort
                  (Inr [''pkg-x.tar.gz'', ''pkg-1.0.tar.gz''])
                  \<lparr>Name = ''pkg'', Constraint = ''''\<rparr>) = Inl e \<and>
            kind_of e = NoPackagesFound)"
    by blast
  from t j m2 p2 have b: "WarningInvalidVersionFormat ''pkg-x.tar.gz''
      (InvalidVersionFormat ''x'')
     \<in> set (fst (findBestPackageVersion insertionSort
                   (Inr [''pkg-x.tar.gz'', ''pkg-1.0.tar.gz''])
                   \<lparr>Name = ''pkg'', Constraint = ''''\<rparr>))"
    by blast
  from i m1 p1 m2 p2 a b show ?thesis by blast
qed

text \<open>
  C5 as stated fails: the only filename of the listing has the required shape, its
  embedded version \<^verbatim>\<open>abc\<close> does not parse, and the outcome is NoPackagesFound.
\<close>

theorem findBestPackageVersion_NoPackagesFound_counterexample:
  "matchesShape ''pkg'' ''pkg-abc.tar.gz'' \<and>
   snd (findBestPackageVersion insertionSort (Inr [''pkg-abc.tar.gz''])
          \<lparr>Name = ''pkg'', Constraint = ''''\<rparr>) = Inl (NoPackagesFoundFor ''pkg'') \<and>
   kind_of (NoPackagesFoundFor ''pkg'') = NoPackagesFound"
  by (simp add: select_eval suffix_Cons)

lemma Compare_refl: "Compare v v = 0"
  by (simp add: Compare_def)

lemma sorted_head_greatest:
  assumes contract: "sort_Slice_contract srt"
    and ne: "valid \<noteq> []"
  shows "\<exists>selected rest. srt versionGreater valid = selected # rest \<and>
           selected \<in> set valid \<and>
           (\<forall>c \<in> set valid.
              Compare (CandidateVersion c) (CandidateVersion selected) \<le> 0)"
proof -
  let ?sorted = "srt versionGreater valid"
  from contract versionGreater_swo
  have m: "mset ?sorted = mset valid"
    and s: "sorted_wrt (\<lambda>a b. \<not> versionGreater b a) ?sorted"
    unfolding sort_Slice_contract_def by blast+
  from m have st: "set ?sorted = set valid" by (rule mset_eq_setD)
  with ne have "?sorted \<noteq> []" by auto
  then obtain selected rest where sr: "?sorted = selected # rest"
    by (cases ?sorted) auto
  have "Compare (CandidateVersion c) (CandidateVersion selected) \<le> 0"
    if "c \<in> set valid" for c
  proof -
    from that st sr have "c = selected \<or> c \<in> set rest" by auto
    then show ?thesis
    proof
      assume "c = selected"
      then show ?thesis by (simp add: Compare_refl)
    next
      assume "c \<in> set rest"
      with s sr have "\<not> versionGreater c selected" by auto
      then show ?thesis by (simp add: versionGreater_def)
    qed
  qed
  moreover have "selected \<in> set valid" using st sr by auto
  ultimately show ?thesis using sr by blast
qed

lemma findBest_satisfying:
  assumes contract: "sort_Slice_contract srt"
    and ex: "f0 \<in> set files" "satisfying name c f0 v0"
  shows "\<exists>f v. snd (findBestPackageVersion srt (Inr files) \<lparr>Name = name, Constraint = c\<rparr>)
                  = Inr f \<and>
           f \<in> set files \<and> satisfying name c f v \<and>
           (\<forall>f' v'. f' \<in> set files \<and> satisfying name c f' v' \<longrightarrow> Compare v' v \<le> 0)"
proof -
  let ?cands = "List.map_filter (candidateOf name) files"
  let ?valid = "filter (\<lambda>x. satisfiesConstraint (CandidateVersion x) c) ?cands"
  from ex have in_valid: "\<lparr>Filename = f0, CandidateVersion = v0\<rparr> \<in> set ?valid"
    unfolding valid_candidate_iff by simp
  then have vne: "?valid \<noteq> []"
    by (metis empty_iff list.set(1))
  then have cne: "?cands \<noteq> []"
    by (metis filter.simps(1))
  from sorted_head_greatest [OF contract vne]
  obtain selected rest where sr: "srt versionGreater ?valid = selected # rest"
    and sel: "selected \<in> set ?valid"
    and top: "\<forall>x \<in> set ?valid.
        Compare (CandidateVersion x) (CandidateVersion selected) \<le> 0"
    by blast
  have res: "snd (findBestPackageVersion srt (Inr files) \<lparr>Name = name, Constraint = c\<rparr>)
      = Inr (Filename selected)"
    unfolding findBestPackageVersion_unfold Let_def
    using cne vne sr by simp
  from sel have s1: "Filename selected \<in> set files"
    and s2: "satisfying name c (Filename selected) (CandidateVersion selected)"
    unfolding valid_candidate_iff by simp_all
  have "Compare v' (CandidateVersion selected) \<le> 0"
    if "f' \<in> set files" and "satisfying name c f' v'" for f' v'
  proof -
    from that have "\<lparr>Filename = f', CandidateVersion = v'\<rparr> \<in> set ?valid"
      unfolding valid_candidate_iff by simp
    with top show ?thesis by fastforce
  qed
  with res s1 s2 show ?thesis by blast
qed

lemma findBest_none_satisfying:
  assumes "f0 \<in> set files" "matchesShape name f0"
    "parseVersion (embeddedVersion name f0) = Inr v0"
    and none: "\<not> (\<exists>f v. f \<in> set files \<and> satisfying name c f v)"
  shows "snd (findBestPackageVersion srt (Inr files) \<lparr>Name = name, Constraint = c\<rparr>)
           = Inl (NoPackagesMatchingConstraint name c)"
proof -
  let ?cands = "List.map_filter (candidateOf name) files"
  let ?valid = "filter (\<lambda>x. satisfiesConstraint (CandidateVersion x) c) ?cands"
  from assms(1-3) have "\<lparr>Filename = f0, CandidateVersion = v0\<rparr> \<in> set ?cands"
    by (simp add: candidate_iff)
  then have cne: "?cands \<noteq> []" by auto
  have "x \<notin> set ?valid" for x
    using none valid_candidate_iff [of x c name files] by blast
  then have "?valid = []" by (cases ?valid) auto
  with cne show ?thesis
    unfolding findBestPackageVersion_unfold Let_def by simp
qed

lemma example_parse:
  "parseVersion (embeddedVersion ''pkg'' ''pkg-1.0.0.tar.gz'') =
     Inr \<lparr>Major = 1, Minor = 0, Patch = 0, Raw = ''1.0.0''\<rparr>"
  "parseVersion (embeddedVersion ''pkg'' ''pkg-2.0.0.tar.gz'') =
     Inr \<lparr>Major = 2, Minor = 0, Patch = 0, Raw = ''2.0.0''\<rparr>"
  "parseVersion (embeddedVersion ''pkg'' ''pkg-1.5.0.tar.gz'') =
     Inr \<lparr>Major = 1, Minor = 5, Patch = 0, Raw = ''1.5.0''\<rparr>"
  by (simp_all add: embeddedVersion_def version_eval)

lemma example_shape:
  "matchesShape ''pkg'' ''pkg-1.0.0.tar.gz''"
  "matchesShape ''pkg'' ''pkg-2.0.0.tar.gz''"
  "matchesShape ''pkg'' ''pkg-1.5.0.tar.gz''"
  by (simp_all add: matchesShape_def HasPrefix_def HasSuffix_def suffix_Cons)

lemma example_satisfies:
  "\<not> satisfiesConstraint \<lparr>Major = 1, Minor = 0, Patch = 0, Raw = ''1.0.0''\<rparr> ''>=1.2.0''"
  "satisfiesConstraint \<lparr>Major = 2, Minor = 0, Patch = 0, Raw = ''2.0.0''\<rparr> ''>=1.2.0''"
  "satisfiesConstraint \<lparr>Major = 1, Minor = 5, Patch = 0, Raw = ''1.5.0''\<rparr> ''>=1.2.0''"
  by (simp_all add: version_eval)

lemma findBest_example:
  assumes contract: "sort_Slice_contract srt"
  shows "snd (findBestPackageVersion srt
                (Inr [''pkg-1.0.0.tar.gz'', ''pkg-2.0.0.tar.gz'', ''pkg-1.5.0.tar.gz''])
                \<lparr>Name = ''pkg'', Constraint = ''>=1.2.0''\<rparr>) = Inr ''pkg-2.0.0.tar.gz''"
proof -
  let ?files = "[''pkg-1.0.0.tar.gz'', ''pkg-2.0.0.tar.gz'', ''pkg-1.5.0.tar.gz'']"
  let ?v2 = "\<lparr>Major = 2, Minor = 0, Patch = 0, Raw = ''2.0.0''\<rparr>"
  have s2: "satisfying ''pkg'' ''>=1.2.0'' ''pkg-2.0.0.tar.gz'' ?v2"
    by (simp add: satisfying_def example_parse example_shape example_satisfies)
  have i2: "''pkg-2.0.0.tar.gz'' \<in> set ?files" by simp
  from findBest_satisfying [OF contract i2 s2]
  obtain f v where res: "snd (findBestPackageVersion srt (Inr ?files)
        \<lparr>Name = ''pkg'', Constraint = ''>=1.2.0''\<rparr>) = Inr f"
    and fin: "f \<in> set ?files" and sat: "satisfying ''pkg'' ''>=1.2.0'' f v"
    and top: "\<forall>f' v'. f' \<in> set ?files \<and> satisfying ''pkg'' ''>=1.2.0'' f' v'
        \<longrightarrow> Compare v' v \<le> 0"
    by blast
  from top i2 s2 have le: "Compare ?v2 v \<le> 0" by blast
  from fin have "f = ''pkg-1.0.0.tar.gz'' \<or> f = ''pkg-2.0.0.tar.gz'' \<or> f = ''pkg-1.5.0.tar.gz''"
    by simp
  then have "f = ''pkg-2.0.0.tar.gz''"
  proof (elim disjE)
    assume f: "f = ''pkg-1.0.0.tar.gz''"
    with sat show ?thesis
      by (auto simp: satisfying_def example_parse example_satisfies)
  next
    assume "f = ''pkg-2.0.0.tar.gz''"
    then show ?thesis .
  next
    assume f: "f = ''pkg-1.5.0.tar.gz''"
    with sat have "v = \<lparr>Major = 1, Minor = 5, Patch = 0, Raw = ''1.5.0''\<rparr>"
      by (auto simp: satisfying_def example_parse)
    with le show ?thesis by (simp add: Compare_def)
  qed
  with res show ?thesis by simp
qed

text \<open>
  C1. Whatever sorting function \<^verbatim>\<open>sort.Slice\<close> is, as long as it keeps its contract:
  when some filename of the listing is a satisfying candidate (it has the shape
  \<^verbatim>\<open><packageName>-<version>.tar.gz\<close>, its embedded version parses, and the version
  satisfies the constraint), \<open>findBestPackageVersion\<close> returns the filename of a
  satisfying candidate, and no satisfying candidate has a greater version under
  \<open>Compare\<close>; when some filename has a parseable version and none satisfies the
  constraint, it fails with NoVersionSatisfiesConstraint. For the three filenames of the
  example and the constraint \<^verbatim>\<open>>=1.2.0\<close> it returns \<^verbatim>\<open>pkg-2.0.0.tar.gz\<close>.
\<close>

theorem findBestPackageVersion_greatest:
  assumes "sort_Slice_contract srt"
  shows
    "((\<exists>f v. f \<in> set files \<and> satisfying name c f v) \<longrightarrow>
      (\<exists>f v. snd (findBestPackageVersion srt (Inr files) \<lparr>Name = name, Constraint = c\<rparr>)
                = Inr f \<and>
         f \<in> set files \<and> satisfying name c f v \<and>
         (\<forall>f' v'. f' \<in> set files \<and> satisfying name c f' v' \<longrightarrow> Compare v' v \<le> 0))) \<and>
     ((\<exists>f v. f \<in> set files \<and> matchesShape name f \<and>
            parseVersion (embeddedVersion name f) = Inr v) \<and>
      \<not> (\<exists>f v. f \<in> set files \<and> satisfying name c f v) \<longrightarrow>
      (\<exists>e. snd (findBestPackageVersion srt (Inr files) \<lparr>Name = name, Constraint = c\<rparr>)
              = Inl e \<and> kind_of e = NoVersionSatisfiesConstraint)) \<and>
     snd (findBestPackageVersion srt
            (Inr [''pkg-1.0.0.tar.gz'', ''pkg-2.0.0.tar.gz'', ''pkg-1.5.0.tar.gz''])
            \<lparr>Name = ''pkg'', Constraint = ''>=1.2.0''\<rparr>) = Inr ''pkg-2.0.0.tar.gz''"
proof (intro conjI impI)
  assume "\<exists>f v. f \<in> set files \<and> satisfying name c f v"
  then obtain f0 v0 where "f0 \<in> set files" "satisfying name c f0 v0" by blast
  from findBest_satisfying [OF assms this]
  show "\<exists>f v. snd (findBestPackageVersion srt (Inr files) \<lparr>Name = name, Constraint = c\<rparr>)
                = Inr f \<and>
         f \<in> set files \<and> satisfying name c f v \<and>
         (\<forall>f' v'. f' \<in> set files \<and> satisfying name c f' v' \<longrightarrow> Compare v' v \<le> 0)" .
next
  assume a: "(\<exists>f v. f \<in> set files \<and> matchesShape name f \<and>
            parseVersion (embeddedVersion name f) = Inr v) \<and>
      \<not> (\<exists>f v. f \<in> set files \<and> satisfying name c f v)"
  then obtain f0 v0 where "f0 \<in> set files" "matchesShape name f0"
    "parseVersion (embeddedVersion name f0) = Inr v0" by blast
  from findBest_none_satisfying [OF this] a
  have "snd (findBestPackageVersion srt (Inr files) \<lparr>Name = name, Constraint = c\<rparr>)
           = Inl (NoPackagesMatchingConstraint name c)" by blast
  then show "\<exists>e. snd (findBestPackageVersion srt (Inr files) \<lparr>Name = name, Constraint = c\<rparr>)
              = Inl e \<and> kind_of e = NoVersionSatisfiesConstraint" by simp
next
  show "snd (findBestPackageVersion srt
            (Inr [''pkg-1.0.0.tar.gz'', ''pkg-2.0.0.tar.gz'', ''pkg-1.5.0.tar.gz''])
            \<lparr>Name = ''pkg'', Constraint = ''>=1.2.0''\<rparr>) = Inr ''pkg-2.0.0.tar.gz''"
    by (rule findBest_example [OF assms])
qed

theorem findBestPackageVersion_greatest_witness:
  "sort_Slice_contract
     (insertionSort :: (PackageCandidate \<Rightarrow> PackageCandidate \<Rightarrow> bool) \<Rightarrow> _) \<and>
   ''pkg-1.5.0.tar.gz'' \<in> set [''pkg-1.0.0.tar.gz'', ''pkg-1.5.0.tar.gz''] \<and>
   satisfying ''pkg'' ''>=1.2.0'' ''pkg-1.5.0.tar.gz''
     \<lparr>Major = 1, Minor = 5, Patch = 0, Raw = ''1.5.0''\<rparr> \<and>
   snd (findBestPackageVersion insertionSort
          (Inr [''pkg-1.0.0.tar.gz'', ''pkg-1.5.0.tar.gz''])
          \<lparr>Name = ''pkg'', Constraint = ''>=1.2.0''\<rparr>) = Inr ''pkg-1.5.0.tar.gz'' \<and>
   ''pkg-1.0.0.tar.gz'' \<in> set [''pkg-1.0.0.tar.gz''] \<and>
   matchesShape ''pkg'' ''pkg-1.0.0.tar.gz'' \<and>
   parseVersion (embeddedVersion ''pkg'' ''pkg-1.0.0.tar.gz'') =
     Inr \<lparr>Major = 1, Minor = 0, Patch = 0, Raw = ''1.0.0''\<rparr> \<and>
   \<not> (\<exists>f v. f \<in> set [''pkg-1.0.0.tar.gz''] \<and> satisfying ''pkg'' ''>=1.2.0'' f v) \<and>
   snd (findBestPackageVersion insertionSort (Inr [''pkg-1.0.0.tar.gz''])
          \<lparr>Name = ''pkg'', Constraint = ''>=1.2.0''\<rparr>)
     = Inl (NoPackagesMatchingConstraint ''pkg'' ''>=1.2.0'') \<and>
   snd (findBestPackageVersion insertionSort
          (Inr [''pkg-1.0.0.tar.gz'', ''pkg-2.0.0.tar.gz'', ''pkg-1.5.0.tar.gz''])
          \<lparr>Name = ''pkg'', Constraint = ''>=1.2.0''\<rparr>) = Inr ''pkg-2.0.0.tar.gz''"
proof -
  note c = insertionSort_contract [where 'a = PackageCandidate]
  have s15: "satisfying ''pkg'' ''>=1.2.0'' ''pkg-1.5.0.tar.gz''
     \<lparr>Major = 1, Minor = 5, Patch = 0, Raw = ''1.5.0''\<rparr>"
    by (simp add: satisfying_def example_parse example_shape example_satisfies)
  have n10: "\<not> (\<exists>f v. f \<in> set [''pkg-1.0.0.tar.gz''] \<and> satisfying ''pkg'' ''>=1.2.0'' f v)"
    by (auto simp: satisfying_def example_parse example_satisfies)
  have r15: "snd (findBestPackageVersion insertionSort
          (Inr [''pkg-1.0.0.tar.gz'', ''pkg-1.5.0.tar.gz''])
          \<lparr>Name = ''pkg'', Constraint = ''>=1.2.0''\<rparr>) = Inr ''pkg-1.5.0.tar.gz''"
    by (simp add: findBestPackageVersion_unfold List.map_filter_simps candidateOf_def
        example_parse example_shape example_satisfies insertionSort_def Let_def)
  note t1 = findBestPackageVersion_greatest [OF c,
      where files = "[''pkg-1.0.0.tar.gz'', ''pkg-1.5.0.tar.gz'']" and name = "''pkg''"
        and c = "''>=1.2.0''"]
  note t2 = findBestPackageVersion_greatest [OF c,
      where files = "[''pkg-1.0.0.tar.gz'']" and name = "''pkg''" and c = "''>=1.2.0''"]
  have i10: "''pkg-1.0.0.tar.gz'' \<in> set [''pkg-1.0.0.tar.gz'']" by simp
  from t2 i10 example_shape(1) example_parse(1) n10
  obtain e where e: "snd (findBestPackageVersion insertionSort (Inr [''pkg-1.0.0.tar.gz''])
          \<lparr>Name = ''pkg'', Constraint = ''>=1.2.0''\<rparr>) = Inl e"
    "kind_of e = NoVersionSatisfiesConstraint"
    by blast
  have r10: "snd (findBestPackageVersion insertionSort (Inr [''pkg-1.0.0.tar.gz''])
          \<lparr>Name = ''pkg'', Constraint = ''>=1.2.0''\<rparr>)
     = Inl (NoPackagesMatchingConstraint ''pkg'' ''>=1.2.0'')"
    by (simp add: findBestPackageVersion_unfold List.map_filter_simps candidateOf_def
        example_parse example_shape example_satisfies Let_def)
  from t1 have r20: "snd (findBestPackageVersion insertionSort
          (Inr [''pkg-1.0.0.tar.gz'', ''pkg-2.0.0.tar.gz'', ''pkg-1.5.0.tar.gz''])
          \<lparr>Name = ''pkg'', Constraint = ''>=1.2.0''\<rparr>) = Inr ''pkg-2.0.0.tar.gz''"
    by blast
  from c s15 n10 r15 r10 r20 example_shape(1) example_parse(1) show ?thesis by simp
qed

section \<open>Evaluation\<close>

text \<open>The definitions that the simplifier unfolds to run the model on concrete inputs.\<close>

lemmas path_eval = Clean_def Join_def Base_def Dir_def IsAbs_def Abs_def elements_def
  cleanStep_def Split_def HasPrefix_def HasSuffix_def Let_def TrimPrefix_def TrimSuffix_def
  ToSlash_def

lemmas fs_eval = lookup_def resolve_def Getwd_def Stat_def IsNotExist_def
  readDirNames_def insertionSort_def walk.simps Walk_def walkFn_def

lemmas os_eval = lookup_def store_def permission_def resolve_def Stat_def
  OpenFile_create_def writeAll_def Mkdir_def stripSeparators_def MkdirAll.simps parentOf_def


section \<open>The framing codec\<close>

lemma decNat_encNat: "decNat (encNat n @ rest) = Some (n, rest)"
  by (induction n) (simp_all add: encNat_def)

lemma decString_encString: "decString (encString s @ rest) = Some (s, rest)"
  by (simp add: decString_def encString_def decNat_encNat)

lemma decFlag_encFlag: "decFlag (encFlag f @ rest) = Some (f, rest)"
  by (cases f) simp_all

lemma decEntry_encEntry: "decEntry (encEntry e @ rest) = Some (e, rest)"
  by (simp add: decEntry_def encEntry_def decString_encString decFlag_encFlag decNat_encNat)

lemma decEntries_encode:
  "decEntries (length es) (concat (map encEntry es)) = (es, None)"
  by (induction es) (simp_all add: decEntry_encEntry)

lemma framing_contract: "codec_contract framing"
  by (simp add: codec_contract_def framing_def decNat_encNat decEntries_encode)

section \<open>Recursive patterns\<close>

lemma length_Split_from: "length (Split_from sep acc s) = Suc (Count s sep)"
  by (induction sep acc s rule: Split_from.induct) auto

lemma length_Split: "length (Split s sep) = Suc (Count s sep)"
  by (simp add: Split_def length_Split_from)

lemma Walk_unresolved: "Stat fs root = Inl e \<Longrightarrow> resolve fs root = Inr key \<Longrightarrow>
    walk fs suffix' root key = []"
  by (auto simp: Stat_def walk.simps [of fs suffix' root key] split: option.splits)

lemma Walk_Stat_error: "Stat fs root = Inl e \<Longrightarrow> Walk fs suffix' root = []"
  by (cases "resolve fs root") (auto simp: Walk_def Walk_unresolved)

lemma expandRecursivePattern_root:
  assumes "length (Split pattern ''**'') = 2"
  shows "(if Split pattern ''**'' ! 0 \<noteq> [] \<and> HasSuffix (Split pattern ''**'' ! 0) ''/''
          then TrimSuffix (Split pattern ''**'' ! 0) ''/'' else Split pattern ''**'' ! 0)
         = TrimSuffix (hd (Split pattern ''**'')) ''/''"
proof -
  from assms have "Split pattern ''**'' \<noteq> []" by auto
  then have "Split pattern ''**'' ! 0 = hd (Split pattern ''**'')"
    by (simp add: hd_conv_nth)
  then show ?thesis by (auto simp: TrimSuffix_def)
qed

lemma expandRecursivePattern_cases:
  "expandRecursivePattern fs pattern =
     (if Count pattern ''**'' \<noteq> 1 then Inl (InvalidRecursivePattern pattern)
      else
        (case Stat fs (walkRoot pattern) of
           Inl e \<Rightarrow> Inr []
         | Inr info \<Rightarrow>
             Inr (Walk fs (let s = Split pattern ''**'' ! 1 in
                           if s \<noteq> [] \<and> HasPrefix s ''/'' then TrimPrefix s ''/'' else s)
                    (walkRoot pattern))))"
proof (cases "Count pattern ''**'' = 1")
  case False
  then have "length (Split pattern ''**'') \<noteq> 2" by (simp add: length_Split)
  with False show ?thesis by (simp add: expandRecursivePattern_def Let_def)
next
  case True
  then have len: "length (Split pattern ''**'') = 2" by (simp add: length_Split)
  note root = expandRecursivePattern_root [OF len]
  show ?thesis
    using True len
    unfolding expandRecursivePattern_def walkRoot_def Let_def root
    by (auto simp: Walk_Stat_error split: sum.splits)
qed

text \<open>
  C8. The expansion of a recursive pattern fails, with an error of kind
  InvalidPattern, unless the pattern contains exactly one \<^verbatim>\<open>**\<close> (occurrences counted
  from the left without overlap, as \<^verbatim>\<open>strings.Count\<close> and \<^verbatim>\<open>strings.Split\<close> do); with
  exactly one it never fails, and when its walk root does not exist (\<^verbatim>\<open>os.Stat\<close>
  fails on it), the result is empty.
\<close>

theorem expandRecursivePattern_spec:
  "(Count pattern ''**'' \<noteq> 1 \<longrightarrow>
      (\<exists>e. expandRecursivePattern fs pattern = Inl e \<and> kind_of e = InvalidPattern)) \<and>
   (Count pattern ''**'' = 1 \<longrightarrow>
      (\<exists>matches. expandRecursivePattern fs pattern = Inr matches) \<and>
      ((\<exists>e. Stat fs (walkRoot pattern) = Inl e) \<longrightarrow>
         expandRecursivePattern fs pattern = Inr []))"
  unfolding expandRecursivePattern_cases
  by (auto split: sum.splits)

theorem expandRecursivePattern_spec_witness:
  "Count ''a**b**c'' ''**'' \<noteq> 1 \<and>
   expandRecursivePattern exampleFS ''a**b**c'' = Inl (InvalidRecursivePattern ''a**b**c'') \<and>
   Count ''missing/**/*.go'' ''**'' = 1 \<and>
   walkRoot ''missing/**/*.go'' = ''missing'' \<and>
   Stat exampleFS ''missing'' = Inl ENOENT \<and>
   expandRecursivePattern exampleFS ''missing/**/*.go'' = Inr []"
proof -
  have c2: "Count ''a**b**c'' ''**'' \<noteq> 1" by simp
  have c1: "Count ''missing/**/*.go'' ''**'' = 1" by simp
  have r: "walkRoot ''missing/**/*.go'' = ''missing''"
    by (simp add: walkRoot_def Split_def TrimSuffix_def HasSuffix_def suffix_Cons)
  have s: "Stat exampleFS ''missing'' = Inl ENOENT"
    by (simp add: Stat_def resolve_def Split_def lookup_def exampleFS_def)
  from expandRecursivePattern_spec [of "''a**b**c''" exampleFS] c2
  have e2: "expandRecursivePattern exampleFS ''a**b**c'' = Inl (InvalidRecursivePattern ''a**b**c'')"
    by (auto simp: expandRecursivePattern_cases)
  from expandRecursivePattern_spec [of "''missing/**/*.go''" exampleFS] c1 r s
  have e1: "expandRecursivePattern exampleFS ''missing/**/*.go'' = Inr []"
    by simp
  from c1 c2 r s e1 e2 show ?thesis by simp
qed

section \<open>Exclude patterns\<close>

lemma shouldExclude_Inr:
  "shouldExclude ps n = Inr b \<Longrightarrow> b = list_ex (\<lambda>p. Match p n = Inr True) ps"
  by (induction ps) (auto split: sum.splits if_splits)

lemma shouldExclude_valid:
  "\<forall>p \<in> set ps. \<exists>b. Match p n = Inr b \<Longrightarrow>
   shouldExclude ps n = Inr (list_ex (\<lambda>p. Match p n = Inr True) ps)"
  by (induction ps) (auto split: sum.splits)

lemma filterFiles_Inr:
  "filterFiles exc files acc = Inr r \<Longrightarrow>
   r = acc @ filter (\<lambda>f. \<not> excludedBy exc f) files"
proof (induction files arbitrary: acc)
  case Nil
  then show ?case by simp
next
  case (Cons f files)
  from Cons.prems obtain b where b: "shouldExclude exc (Base f) = Inr b"
    by (cases "shouldExclude exc (Base f)") auto
  from shouldExclude_Inr [OF b] have eb: "b = excludedBy exc f"
    by (simp add: excludedBy_def)
  from Cons.prems b
  have "filterFiles exc files (if \<not> b then acc @ [f] else acc) = Inr r" by simp
  from Cons.IH [OF this] eb show ?case by auto
qed

lemma filterFiles_valid:
  "\<forall>f \<in> set files. \<forall>p \<in> set exc. \<exists>b. Match p (Base f) = Inr b \<Longrightarrow>
   filterFiles exc files acc = Inr (acc @ filter (\<lambda>f. \<not> excludedBy exc f) files)"
proof (induction files arbitrary: acc)
  case Nil
  then show ?case by simp
next
  case (Cons f files)
  then have "\<forall>p \<in> set exc. \<exists>b. Match p (Base f) = Inr b" by simp
  from shouldExclude_valid [OF this]
  have b: "shouldExclude exc (Base f) = Inr (excludedBy exc f)"
    by (simp add: excludedBy_def)
  from Cons.prems have "\<forall>f \<in> set files. \<forall>p \<in> set exc. \<exists>b. Match p (Base f) = Inr b"
    by simp
  from Cons.IH [OF this] b show ?case by simp
qed

lemma matchChunkFrom_literal:
  "\<forall>c \<in> set chunk. c \<noteq> CHR ''['' \<and> c \<noteq> CHR ''?'' \<and> c \<noteq> CHR 0x5C \<Longrightarrow>
   matchChunkFrom failed chunk s =
     (if \<not> failed \<and> prefix chunk s then Inr (drop (length chunk) s, True)
      else Inr ([], False))"
proof (induction chunk arbitrary: failed s)
  case Nil
  show ?case by (simp add: matchChunkFrom.simps [of failed "[]"])
next
  case (Cons c chunk)
  then have c: "c \<noteq> CHR ''[''" "c \<noteq> CHR ''?''" "c \<noteq> CHR 0x5C"
    and rest: "\<forall>c \<in> set chunk. c \<noteq> CHR ''['' \<and> c \<noteq> CHR ''?'' \<and> c \<noteq> CHR 0x5C"
    by simp_all
  note IH = Cons.IH [OF rest]
  have step: "matchChunkFrom failed (c # chunk) s =
      (if \<not> (failed \<or> s = []) then matchChunkFrom (c \<noteq> hd s) chunk (tl s)
       else matchChunkFrom (failed \<or> s = []) chunk s)"
    using c by (subst matchChunkFrom.simps) (simp add: Let_def)
  show ?case
    unfolding step IH by (cases s) auto
qed

lemma Base_no_separator: "Base path = ''/'' \<or> CHR ''/'' \<notin> set (Base path)"
proof -
  have "CHR ''/'' \<notin> set (takeWhile (\<lambda>c. c \<noteq> CHR ''/'') xs)" for xs :: string
    by (auto dest: set_takeWhileD)
  then show ?thesis by (auto simp: Base_def Let_def)
qed

lemma Base_file_in_dir:
  assumes "CHR ''/'' \<notin> set name" and "name \<noteq> []"
  shows "Base (dir @ ''/'' @ name) = name"
proof -
  have "rev (dir @ ''/'' @ name) = rev name @ CHR ''/'' # rev dir" by simp
  moreover from assms(2) obtain c cs where r: "rev name = c # cs"
    by (cases "rev name") auto
  moreover from r have "c \<in> set name"
    by (metis list.set_intros(1) set_rev)
  with assms(1) have "c \<noteq> CHR ''/''" by auto
  ultimately have d: "dropWhile (\<lambda>c. c = CHR ''/'') (rev (dir @ ''/'' @ name))
      = rev name @ CHR ''/'' # rev dir" by simp
  have t: "takeWhile (\<lambda>c. c \<noteq> CHR ''/'') (rev name @ CHR ''/'' # rev dir) = rev name"
  proof -
    have "\<forall>c \<in> set (rev name). c \<noteq> CHR ''/''" using assms(1) by auto
    then have "takeWhile (\<lambda>c. c \<noteq> CHR ''/'') (rev name @ CHR ''/'' # rev dir)
        = rev name @ takeWhile (\<lambda>c. c \<noteq> CHR ''/'') (CHR ''/'' # rev dir)"
      by (intro takeWhile_append2) auto
    then show ?thesis by simp
  qed
  show ?thesis
    unfolding Base_def Let_def d using t assms(2) by simp
qed

lemma scanChunk_sub: "scanChunk ''sub/*.tmp'' = (False, ''sub/'', ''*.tmp'')"
  by (simp add: scanChunk_def)

lemma scanChunk_tmp: "scanChunk ''*.tmp'' = (True, ''.tmp'', [])"
  by (simp add: scanChunk_def)

lemma checkRest_tmp: "checkRest ''*.tmp'' = Inr False"
  by (simp add: checkRest.simps [of "''*.tmp''"] checkRest.simps [of "[]"] scanChunk_tmp
      matchChunk_def matchChunkFrom_literal)

lemma Match_sub_no_prefix:
  assumes "\<not> prefix ''sub/'' name"
  shows "Match ''sub/*.tmp'' name = Inr False"
proof -
  have "matchChunk ''sub/'' name = Inr ([], False)"
    using assms by (simp add: matchChunk_def matchChunkFrom_literal)
  then show ?thesis
    by (simp add: Match.simps [of "''sub/*.tmp''"] scanChunk_sub checkRest_tmp)
qed

lemma Match_sub_Base: "Match ''sub/*.tmp'' (Base file) = Inr False"
proof -
  have "\<not> prefix ''sub/'' (Base file)"
  proof
    assume "prefix ''sub/'' (Base file)"
    then obtain r where r: "Base file = ''sub/'' @ r" by (auto simp: prefix_def)
    then have "CHR ''/'' \<in> set (Base file)" and "Base file \<noteq> ''/''" by simp_all
    with Base_no_separator [of "file"] show False by blast
  qed
  then show ?thesis by (rule Match_sub_no_prefix)
qed

lemma Match_tmp: "Match ''*.tmp'' ''z.tmp'' = Inr True"
  by (simp add: Match.simps [of "''*.tmp''"] Match.simps [of "[]"] scanChunk_tmp matchChunk_def
      matchChunkFrom_literal)

lemma example_expand: "expandRecursivePattern exampleFS ''**'' = Inr [''a.txt'', ''sub/b.go'']"
  by (simp add: expandRecursivePattern_def exampleFS_def path_eval fs_eval)

lemma example_Getwd: "Getwd exampleFS = ''/w''"
  by (simp add: Getwd_def exampleFS_def)

lemma example_Abs:
  "Abs ''/w'' ''a.txt'' = ''/w/a.txt''"
  "Abs ''/w'' ''sub/b.go'' = ''/w/sub/b.go''"
  by (simp_all add: path_eval)

lemma example_Stat:
  "Stat exampleFS ''/w/a.txt'' = Inr (FileNode 420 ''hello'')"
  "Stat exampleFS ''/w/sub/b.go'' = Inr (FileNode 420 ''package b'')"
  by (simp_all add: Stat_def resolve_def lookup_def exampleFS_def Split_def)

lemma example_collect:
  "collectFilesByPatterns glob exampleFS [''**''] = Inr [''/w/a.txt'', ''/w/sub/b.go'']"
  by (simp add: collectFilesByPatterns_def example_expand example_Getwd example_Abs
      example_Stat Let_def)

lemma example_Base:
  "Base ''/w/a.txt'' = ''a.txt''"
  "Base ''/w/sub/b.go'' = ''b.go''"
  by (simp_all add: Base_def)

lemma example_Match:
  "Match ''*.go'' ''a.txt'' = Inr False"
  "Match ''*.go'' ''b.go'' = Inr True"
  by (simp_all add: Match.simps [of "''*.go''"] Match.simps [of "[]"] checkRest.simps [of "[]"]
      scanChunk_def matchChunk_def matchChunkFrom_literal)

section \<open>Extraction and directory traversal\<close>

lemma extractFileFromTar_illegal:
  "\<not> withinOutputDir outputDir (hdrName h) \<Longrightarrow>
   extractFileFromTar fs h outputDir = (fs, Some (IllegalFilePath (Join [outputDir, hdrName h])))"
  by (auto simp: withinOutputDir_def extractFileFromTar_def Let_def)

lemma extractFileFromTar_ok_within:
  "extractFileFromTar fs h outputDir = (fs', None) \<Longrightarrow> withinOutputDir outputDir (hdrName h)"
  by (rule ccontr) (simp add: extractFileFromTar_illegal)

lemma extractEntries_append:
  "extractEntries fs (pre @ post) readError outputDir =
     (case extractEntries fs pre None outputDir of
        (fs1, None) \<Rightarrow> extractEntries fs1 post readError outputDir
      | (fs1, Some e) \<Rightarrow> (fs1, Some e))"
  by (induction pre arbitrary: fs) (auto split: prod.splits option.splits)

lemma extractEntries_ok_all:
  "extractEntries fs entries readError outputDir = (fs', None) \<Longrightarrow>
   \<forall>h \<in> set entries. withinOutputDir outputDir (hdrName h)"
proof (induction entries arbitrary: fs)
  case Nil
  then show ?case by simp
next
  case (Cons h entries)
  from Cons.prems obtain fs1 where h: "extractFileFromTar fs h outputDir = (fs1, None)"
    and rest: "extractEntries fs1 entries readError outputDir = (fs', None)"
    by (auto split: prod.splits option.splits)
  from extractFileFromTar_ok_within [OF h] Cons.IH [OF rest] show ?case by simp
qed

lemma extractEntries_violation:
  assumes "extractEntries fs pre None outputDir = (fs1, None)"
    and "\<not> withinOutputDir outputDir (hdrName h)"
  shows "extractEntries fs (pre @ h # post) readError outputDir =
           (fs1, Some (FailedToExtractFile (hdrName h)
                         (IllegalFilePath (Join [outputDir, hdrName h]))))"
  using assms by (simp add: extractEntries_append extractFileFromTar_illegal)

lemma traversal_example: "\<not> withinOutputDir ''out'' ''../../etc/passwd''"
  by (simp add: withinOutputDir_def Join_def Clean_def Split_def cleanStep_def HasPrefix_def)

text \<open>
  C2. An entry whose name fails the check (the cleaned join of the output directory and
  the name is neither the cleaned output directory nor below it) makes
  \<open>extractFileFromTar\<close> return the IllegalPath error and leave the file system as it
  was. The check is made on every entry: when the entries before such an entry were
  extracted, \<open>ExtractTarGz\<close> fails with an error of kind IllegalPath and the file
  system is the one that the earlier entries left; and an extraction that succeeds
  has checked every entry of the archive. The name \<^verbatim>\<open>../../etc/passwd\<close> fails the
  check for the output directory \<^verbatim>\<open>out\<close>.
\<close>

theorem ExtractTarGz_traversal:
  "(\<not> withinOutputDir outputDir (hdrName h) \<longrightarrow>
      extractFileFromTar fs h outputDir
        = (fs, Some (IllegalFilePath (Join [outputDir, hdrName h])))) \<and>
   (Stat fs archivePath = Inr (FileNode m bytes) \<and>
    tarGzDecode codec bytes = Inr (pre @ h # post, readError) \<and>
    extractEntries fs pre None outputDir = (fsBefore, None) \<and>
    \<not> withinOutputDir outputDir (hdrName h) \<longrightarrow>
      (\<exists>e. ExtractTarGz codec fs archivePath outputDir = (fsBefore, Some e) \<and>
           kind_of e = IllegalPath)) \<and>
   (Stat fs archivePath = Inr (FileNode m bytes) \<and>
    tarGzDecode codec bytes = Inr (entries, readError) \<and>
    ExtractTarGz codec fs archivePath outputDir = (fs', None) \<longrightarrow>
      (\<forall>h' \<in> set entries. withinOutputDir outputDir (hdrName h'))) \<and>
   \<not> withinOutputDir ''out'' ''../../etc/passwd''"
proof (intro conjI impI)
  assume "\<not> withinOutputDir outputDir (hdrName h)"
  then show "extractFileFromTar fs h outputDir
        = (fs, Some (IllegalFilePath (Join [outputDir, hdrName h])))"
    by (rule extractFileFromTar_illegal)
next
  assume a: "Stat fs archivePath = Inr (FileNode m bytes) \<and>
    tarGzDecode codec bytes = Inr (pre @ h # post, readError) \<and>
    extractEntries fs pre None outputDir = (fsBefore, None) \<and>
    \<not> withinOutputDir outputDir (hdrName h)"
  then have "ExtractTarGz codec fs archivePath outputDir =
      (fsBefore, Some (FailedToExtractFile (hdrName h)
                    (IllegalFilePath (Join [outputDir, hdrName h]))))"
    by (simp add: ExtractTarGz_def extractEntries_violation)
  then show "\<exists>e. ExtractTarGz codec fs archivePath outputDir = (fsBefore, Some e) \<and>
           kind_of e = IllegalPath"
    by simp
next
  assume a: "Stat fs archivePath = Inr (FileNode m bytes) \<and>
    tarGzDecode codec bytes = Inr (entries, readError) \<and>
    ExtractTarGz codec fs archivePath outputDir = (fs', None)"
  then have "extractEntries fs entries readError outputDir = (fs', None)"
    by (auto simp: ExtractTarGz_def)
  then show "\<forall>h' \<in> set entries. withinOutputDir outputDir (hdrName h')"
    by (rule extractEntries_ok_all)
next
  show "\<not> withinOutputDir ''out'' ''../../etc/passwd''"
    by (rule traversal_example)
qed

lemma archiveFS_Stat:
  "Stat archiveFS ''pkg.tar.gz'' = Inr (FileNode 420 (tarGzEncode framing [goodEntry, evilEntry]))"
  by (simp add: archiveFS_def exampleFS_def Stat_def resolve_def lookup_def store_def Split_def)

lemma archiveFS_good:
  "\<exists>fs1. extractEntries archiveFS [goodEntry] None ''out'' = (fs1, None) \<and>
         ReadFile fs1 ''out/d/f.txt'' = Inr ''hi'' \<and>
         Stat fs1 ''/etc/passwd'' = Inl ENOENT"
  by (simp add: archiveFS_def exampleFS_def goodEntry_def extractFileFromTar_def ReadFile_def
      path_eval os_eval)

theorem ExtractTarGz_traversal_witness:
  "\<exists>fs1. extractEntries archiveFS [goodEntry] None ''out'' = (fs1, None) \<and>
     ReadFile fs1 ''out/d/f.txt'' = Inr ''hi'' \<and>
     Stat fs1 ''/etc/passwd'' = Inl ENOENT \<and>
     \<not> withinOutputDir ''out'' (hdrName evilEntry) \<and>
     Stat archiveFS ''pkg.tar.gz''
       = Inr (FileNode 420 (tarGzEncode framing [goodEntry, evilEntry])) \<and>
     tarGzDecode framing (tarGzEncode framing [goodEntry, evilEntry])
       = Inr ([goodEntry] @ evilEntry # [], None) \<and>
     (\<exists>e. ExtractTarGz framing archiveFS ''pkg.tar.gz'' ''out'' = (fs1, Some e) \<and>
          kind_of e = IllegalPath)"
proof -
  from archiveFS_good obtain fs1
    where g: "extractEntries archiveFS [goodEntry] None ''out'' = (fs1, None)"
      and r: "ReadFile fs1 ''out/d/f.txt'' = Inr ''hi''"
      and s: "Stat fs1 ''/etc/passwd'' = Inl ENOENT"
    by blast
  have v: "\<not> withinOutputDir ''out'' (hdrName evilEntry)"
    by (simp add: evilEntry_def traversal_example)
  have d: "tarGzDecode framing (tarGzEncode framing [goodEntry, evilEntry])
       = Inr ([goodEntry] @ evilEntry # [], None)"
    using framing_contract by (simp add: codec_contract_def)
  from ExtractTarGz_traversal
    [where fs = archiveFS and archivePath = "''pkg.tar.gz''" and codec = framing
       and pre = "[goodEntry]" and h = evilEntry and post = "[]" and readError = None
       and outputDir = "''out''" and fsBefore = fs1 and m = 420
       and bytes = "tarGzEncode framing [goodEntry, evilEntry]"]
    archiveFS_Stat d g v
  have "\<exists>e. ExtractTarGz framing archiveFS ''pkg.tar.gz'' ''out'' = (fs1, Some e) \<and>
          kind_of e = IllegalPath"
    by blast
  with g r s v archiveFS_Stat d show ?thesis by blast
qed

section \<open>Splitting and joining on the separator\<close>



lemma Split_from_nonempty: "Split_from sep acc s \<noteq> []"
  by (induction sep acc s rule: Split_from.induct) auto






lemma strings_Join_append:
  "xs \<noteq> [] \<Longrightarrow> ys \<noteq> [] \<Longrightarrow>
   strings_Join (xs @ ys) sep = strings_Join xs sep @ sep @ strings_Join ys sep"
  by (induction xs sep rule: strings_Join.induct) (auto simp: neq_Nil_conv)



subsection \<open>Clean, element by element\<close>









subsection \<open>Absolute and relative paths\<close>












section \<open>File system operations\<close>



lemma umask_store [simp]: "umask (store fs key n) = umask fs"
  by (simp add: store_def)

lemma lookup_root [simp]: "lookup fs [] = Some (DirNode 493)"
  by (simp add: lookup_def)



lemma keeps_mono: "keeps fs fs' K \<Longrightarrow> K \<subseteq> K' \<Longrightarrow> keeps fs fs' K'"
  unfolding keeps_def by blast












subsection \<open>Where an extracted entry lands\<close>






subsection \<open>What the collector returns\<close>

lemma addMatches_invariant:
  assumes "addMatches fs ms (allFiles, seenFiles) = (allFiles', seenFiles')"
    and "distinct allFiles" and "set allFiles \<subseteq> seenFiles"
    and "\<forall>f \<in> set allFiles. (\<exists>m. f = Abs (Getwd fs) m) \<and>
           (\<exists>mode bytes. Stat fs f = Inr (FileNode mode bytes))"
  shows "distinct allFiles' \<and> set allFiles' \<subseteq> seenFiles' \<and>
         (\<forall>f \<in> set allFiles'. (\<exists>m. f = Abs (Getwd fs) m) \<and>
            (\<exists>mode bytes. Stat fs f = Inr (FileNode mode bytes)))"
  using assms
proof (induction ms arbitrary: allFiles seenFiles)
  case Nil
  then show ?case by simp
next
  case (Cons m ms)
  let ?a = "Abs (Getwd fs) m"
  show ?case
  proof (cases "\<exists>info. Stat fs ?a = Inr info \<and> \<not> IsDir info \<and> ?a \<notin> seenFiles")
    case True
    with Cons.prems(1)
    have step: "addMatches fs ms (allFiles @ [?a], insert ?a seenFiles) = (allFiles', seenFiles')"
      by (auto simp: Let_def)
    from True Cons.prems(2,3) have d: "distinct (allFiles @ [?a])" by auto
    from Cons.prems(3) have s: "set (allFiles @ [?a]) \<subseteq> insert ?a seenFiles" by auto
    from True obtain info where "Stat fs ?a = Inr info" "\<not> IsDir info" by blast
    then have "\<exists>mode bytes. Stat fs ?a = Inr (FileNode mode bytes)" by (cases info) auto
    with Cons.prems(4)
    have p: "\<forall>f \<in> set (allFiles @ [?a]). (\<exists>m. f = Abs (Getwd fs) m) \<and>
        (\<exists>mode bytes. Stat fs f = Inr (FileNode mode bytes))"
      by auto
    from Cons.IH [OF step d s p] show ?thesis .
  next
    case False
    with Cons.prems(1)
    have step: "addMatches fs ms (allFiles, seenFiles) = (allFiles', seenFiles')"
      by (auto simp: Let_def split: sum.splits if_splits)
    from Cons.IH [OF step Cons.prems(2,3,4)] show ?thesis .
  qed
qed

lemma collectFrom_invariant:
  assumes "collectFrom glob fs patterns (allFiles, seenFiles) = Inr files"
    and "distinct allFiles" and "set allFiles \<subseteq> seenFiles"
    and "\<forall>f \<in> set allFiles. (\<exists>m. f = Abs (Getwd fs) m) \<and>
           (\<exists>mode bytes. Stat fs f = Inr (FileNode mode bytes))"
  shows "distinct files \<and>
         (\<forall>f \<in> set files. (\<exists>m. f = Abs (Getwd fs) m) \<and>
            (\<exists>mode bytes. Stat fs f = Inr (FileNode mode bytes)))"
  using assms
proof (induction patterns arbitrary: allFiles seenFiles)
  case Nil
  then show ?case by simp
next
  case (Cons pattern patterns)
  from Cons.prems(1) obtain ms where
    step: "collectFrom glob fs patterns (addMatches fs ms (allFiles, seenFiles)) = Inr files"
    by (auto split: sum.splits)
  obtain a s where am: "addMatches fs ms (allFiles, seenFiles) = (a, s)"
    by (cases "addMatches fs ms (allFiles, seenFiles)")
  from addMatches_invariant [OF am Cons.prems(2,3,4)]
  have "distinct a" and "set a \<subseteq> s"
    and "\<forall>f \<in> set a. (\<exists>m. f = Abs (Getwd fs) m) \<and>
           (\<exists>mode bytes. Stat fs f = Inr (FileNode mode bytes))" by simp_all
  with Cons.IH [of a s] step am show ?case by simp
qed

lemma collectFilesByPatterns_distinct:
  assumes "collectFilesByPatterns glob fs patterns = Inr files"
  shows "distinct files \<and>
         (\<forall>f \<in> set files. (\<exists>m. f = Abs (Getwd fs) m) \<and>
            (\<exists>mode bytes. Stat fs f = Inr (FileNode mode bytes)))"
  using collectFrom_invariant [of glob fs patterns "[]" "{}" files] assms
  by (simp add: collectFilesByPatterns_def)

subsection \<open>What the archive holds\<close>






section \<open>Round trip\<close>




section \<open>Building an archive and extracting it\<close>

subsection \<open>The example, evaluated\<close>




























subsection \<open>The round trip\<close>




section \<open>Patterns with a separator\<close>

lemma DecodeRuneInString_continuation:
  "DecodeRuneInString s = (r, n) \<Longrightarrow>
   \<forall>c \<in> set (take (n - 1) (tl s)). (128::nat) \<le> of_char c"
  unfolding DecodeRuneInString_def Let_def continuation_def
  by (auto split: list.splits if_splits)

lemma separatorOutside_skip:
  "\<forall>c \<in> set xs. c \<noteq> CHR '']'' \<and> c \<noteq> CHR 0x5C \<Longrightarrow>
   separatorOutside True (xs @ ys) = separatorOutside True ys"
  by (induction xs) auto

lemma separatorOutside_rune:
  assumes "DecodeRuneInString s = (r, n)"
  shows "separatorOutside True (tl s) = separatorOutside True (drop (n - 1) (tl s))"
proof -
  from DecodeRuneInString_continuation [OF assms]
  have "\<forall>c \<in> set (take (n - 1) (tl s)). c \<noteq> CHR '']'' \<and> c \<noteq> CHR 0x5C" by auto
  from separatorOutside_skip [OF this, of "drop (n - 1) (tl s)"] show ?thesis by simp
qed

lemma getEsc_rest: "getEsc chunk = Inr (r, rest) \<Longrightarrow> rest \<noteq> []"
  by (auto simp: getEsc_def Let_def split: if_splits prod.splits)

lemma separatorOutside_getEsc:
  assumes "getEsc chunk = Inr (r, rest)"
  shows "separatorOutside True chunk = separatorOutside True rest"
proof -
  from assms have "chunk \<noteq> []" and "hd chunk \<noteq> CHR '']''"
    by (auto simp: getEsc_def split: if_splits)
  then obtain c cs where chunk: "chunk = c # cs" and c: "c \<noteq> CHR '']''"
    by (cases chunk) auto
  define chunk' where "chunk' = (if c = CHR 0x5C then cs else chunk)"
  from assms chunk have ne: "chunk' \<noteq> []"
    by (auto simp: getEsc_def chunk'_def Let_def split: if_splits)
  obtain r' n where d: "DecodeRuneInString chunk' = (r', n)"
    by (cases "DecodeRuneInString chunk'")
  from assms chunk d have rest: "rest = drop n chunk'"
    by (auto simp: getEsc_def chunk'_def Let_def split: if_splits)
  from DecodeRuneInString_size [OF ne] d have n: "1 \<le> n" by simp
  from ne obtain x xs where x: "chunk' = x # xs" by (cases chunk') auto
  with n have dr: "drop n chunk' = drop (n - 1) (tl chunk')"
    by (cases n) auto
  have "separatorOutside True chunk = separatorOutside True (tl chunk')"
    using chunk c x by (auto simp: chunk'_def)
  also have "\<dots> = separatorOutside True (drop (n - 1) (tl chunk'))"
    by (rule separatorOutside_rune [OF d])
  finally show ?thesis by (simp add: rest dr)
qed

lemma separatorOutside_classRanges:
  "classRanges r chunk match nrange = Inr (m, rest) \<Longrightarrow>
   separatorOutside True chunk = separatorOutside False rest"
proof (induction r chunk match nrange rule: classRanges.induct)
  case (1 r chunk match nrange)
  show ?case
  proof (cases "chunk \<noteq> [] \<and> hd chunk = CHR '']'' \<and> nrange > 0")
    case True
    with "1.prems" have "rest = tl chunk"
      by (simp add: classRanges.simps [of r chunk])
    with True show ?thesis by (cases chunk) auto
  next
    case False
    from "1.prems" False obtain lo chunk1 where g: "getEsc chunk = Inr (lo, chunk1)"
      by (cases "getEsc chunk") (auto simp: classRanges.simps [of r chunk])
    note s1 = separatorOutside_getEsc [OF g]
    from getEsc_rest [OF g] have ne1: "chunk1 \<noteq> []" .
    show ?thesis
    proof (cases "hd chunk1 = CHR ''-''")
      case dash: True
      from "1.prems" False g dash obtain hi chunk2
        where g2: "getEsc (tl chunk1) = Inr (hi, chunk2)"
        by (cases "getEsc (tl chunk1)") (auto simp: classRanges.simps [of r chunk])
      from "1.prems" False g dash g2
      have "classRanges r chunk2 (match \<or> (lo \<le> r \<and> r \<le> hi)) (nrange + 1) = Inr (m, rest)"
        by (simp add: classRanges.simps [of r chunk])
      from "1.IH"(1) [OF False g refl dash g2 refl this]
      have "separatorOutside True chunk2 = separatorOutside False rest" .
      moreover from dash ne1 have "separatorOutside True chunk1 = separatorOutside True (tl chunk1)"
        by (cases chunk1) auto
      moreover note separatorOutside_getEsc [OF g2] s1
      ultimately show ?thesis by simp
    next
      case nodash: False
      from "1.prems" False g nodash
      have "classRanges r chunk1 (match \<or> (lo \<le> r \<and> r \<le> lo)) (nrange + 1) = Inr (m, rest)"
        by (simp add: classRanges.simps [of r chunk])
      from "1.IH"(2) [OF False g refl nodash this] s1
      show ?thesis by simp
    qed
  qed
qed

lemma suffix_separator:
  assumes "suffix t u" and "suffix u s" and "P \<longrightarrow> CHR ''/'' \<in> set u"
  shows "suffix t s \<and> (P \<longrightarrow> CHR ''/'' \<in> set s)"
proof -
  from assms(1,2) have "suffix t s" by (rule suffix_order.trans)
  moreover from set_mono_suffix [OF assms(2)] assms(3) have "P \<longrightarrow> CHR ''/'' \<in> set s"
    by auto
  ultimately show ?thesis by simp
qed

lemma matchChunkFrom_ok:
  "matchChunkFrom failed chunk s = Inr (t, True) \<Longrightarrow>
   \<not> failed \<and> suffix t s \<and> (separatorOutside False chunk \<longrightarrow> CHR ''/'' \<in> set s)"
proof (induction "length chunk" arbitrary: failed chunk s rule: less_induct)
  case less
  note prem = less.prems
  show ?case
  proof (cases chunk)
    case Nil
    with prem show ?thesis
      by (auto simp: matchChunkFrom.simps [of failed "[]"] split: if_splits)
  next
    case (Cons c chunk')
    define failed' where "failed' = (failed \<or> s = [])"
    consider (bracket) "c = CHR ''[''" | (question) "c = CHR ''?''" | (escape) "c = CHR 0x5C"
      | (literal) "c \<noteq> CHR ''[''" "c \<noteq> CHR ''?''" "c \<noteq> CHR 0x5C" by blast
    then show ?thesis
    proof cases
      case bracket
      define r where "r = (if \<not> failed' then fst (DecodeRuneInString s) else 0)"
      define s1 where "s1 = (if \<not> failed' then drop (snd (DecodeRuneInString s)) s else s)"
      define negated where "negated = (chunk' \<noteq> [] \<and> hd chunk' = CHR ''^'')"
      define chunk2 where "chunk2 = (if negated then tl chunk' else chunk')"
      have eq: "matchChunkFrom failed chunk s =
          (case classRanges r chunk2 False 0 of
             Inl err \<Rightarrow> Inl err
           | Inr (match, chunk3) \<Rightarrow>
               matchChunkFrom (failed' \<or> match = negated) chunk3 s1)"
        unfolding Cons bracket r_def s1_def negated_def chunk2_def failed'_def
        by (subst matchChunkFrom.simps) (simp add: Let_def)
      from prem eq obtain match chunk3
        where cr: "classRanges r chunk2 False 0 = Inr (match, chunk3)"
          and rec: "matchChunkFrom (failed' \<or> match = negated) chunk3 s1 = Inr (t, True)"
        by (auto split: sum.splits)
      from classRanges_shorter [OF cr] have "length chunk3 < length chunk"
        by (auto simp: Cons chunk2_def split: if_splits)
      from less.hyps [OF this rec]
      have nf: "\<not> failed'" and suf: "suffix t s1"
        and sep: "separatorOutside False chunk3 \<longrightarrow> CHR ''/'' \<in> set s1" by simp_all
      from nf have s1: "s1 = drop (snd (DecodeRuneInString s)) s" by (simp add: s1_def)
      have sub: "suffix s1 s" unfolding s1 by (rule suffix_drop)
      have "separatorOutside False chunk = separatorOutside True chunk'"
        by (simp add: Cons bracket)
      also have "\<dots> = separatorOutside True chunk2"
        by (cases chunk') (auto simp: chunk2_def negated_def)
      also have "\<dots> = separatorOutside False chunk3"
        by (rule separatorOutside_classRanges [OF cr])
      finally have "separatorOutside False chunk \<longrightarrow> CHR ''/'' \<in> set s1" using sep by simp
      from suffix_separator [OF suf sub this] nf show ?thesis
        by (simp add: failed'_def)
    next
      case question
      have eq: "matchChunkFrom failed chunk s =
          (if \<not> failed'
           then matchChunkFrom (hd s = CHR ''/'') chunk' (drop (snd (DecodeRuneInString s)) s)
           else matchChunkFrom failed' chunk' s)"
        unfolding Cons question failed'_def
        by (subst matchChunkFrom.simps) (simp add: Let_def)
      have len: "length chunk' < length chunk" by (simp add: Cons)
      show ?thesis
      proof (cases failed')
        case True
        with prem eq have "matchChunkFrom failed' chunk' s = Inr (t, True)" by simp
        from less.hyps [OF len this] True show ?thesis by simp
      next
        case False
        let ?s1 = "drop (snd (DecodeRuneInString s)) s"
        from False prem eq have "matchChunkFrom (hd s = CHR ''/'') chunk' ?s1 = Inr (t, True)"
          by simp
        from less.hyps [OF len this]
        have suf: "suffix t ?s1"
          and sep: "separatorOutside False chunk' \<longrightarrow> CHR ''/'' \<in> set ?s1" by simp_all
        have sub: "suffix ?s1 s" by (rule suffix_drop)
        have "separatorOutside False chunk = separatorOutside False chunk'"
          by (simp add: Cons question)
        with sep have "separatorOutside False chunk \<longrightarrow> CHR ''/'' \<in> set ?s1" by simp
        from suffix_separator [OF suf sub this] False show ?thesis
          by (simp add: failed'_def)
      qed
    next
      case escape
      show ?thesis
      proof (cases chunk')
        case Nil
        have "matchChunkFrom failed chunk s = Inl ErrBadPattern"
          unfolding Cons escape Nil
          by (subst matchChunkFrom.simps) (simp add: Let_def)
        with prem show ?thesis by simp
      next
        case (Cons d chunk'')
        have eq: "matchChunkFrom failed chunk s =
            (if \<not> failed' then matchChunkFrom (d \<noteq> hd s) chunk'' (tl s)
             else matchChunkFrom failed' chunk'' s)"
          unfolding \<open>chunk = c # chunk'\<close> escape Cons failed'_def
          by (subst matchChunkFrom.simps) (simp add: Let_def)
        have len: "length chunk'' < length chunk" by (simp add: \<open>chunk = c # chunk'\<close> Cons)
        show ?thesis
        proof (cases failed')
          case True
          with prem eq have "matchChunkFrom failed' chunk'' s = Inr (t, True)" by simp
          from less.hyps [OF len this] True show ?thesis by simp
        next
          case False
          from False prem eq have "matchChunkFrom (d \<noteq> hd s) chunk'' (tl s) = Inr (t, True)"
            by simp
          from less.hyps [OF len this]
          have d: "d = hd s" and suf: "suffix t (tl s)"
            and sep: "separatorOutside False chunk'' \<longrightarrow> CHR ''/'' \<in> set (tl s)" by simp_all
          from False have ne: "s \<noteq> []" by (simp add: failed'_def)
          have sub: "suffix (tl s) s" by (rule suffix_tl)
          have "separatorOutside False chunk \<longleftrightarrow> d = CHR ''/'' \<or> separatorOutside False chunk''"
            by (simp add: \<open>chunk = c # chunk'\<close> escape Cons)
          moreover from d ne have "d \<in> set s" by simp
          ultimately have "separatorOutside False chunk \<longrightarrow> CHR ''/'' \<in> set s"
            using sep set_mono_suffix [OF sub] by auto
          moreover from suf sub have "suffix t s" by (rule suffix_order.trans)
          ultimately show ?thesis using False by (simp add: failed'_def)
        qed
      qed
    next
      case literal
      have eq: "matchChunkFrom failed chunk s =
          (if \<not> failed' then matchChunkFrom (c \<noteq> hd s) chunk' (tl s)
           else matchChunkFrom failed' chunk' s)"
        unfolding Cons failed'_def using literal
        by (subst matchChunkFrom.simps) (simp add: Let_def)
      have len: "length chunk' < length chunk" by (simp add: Cons)
      show ?thesis
      proof (cases failed')
        case True
        with prem eq have "matchChunkFrom failed' chunk' s = Inr (t, True)" by simp
        from less.hyps [OF len this] True show ?thesis by simp
      next
        case False
        from False prem eq have "matchChunkFrom (c \<noteq> hd s) chunk' (tl s) = Inr (t, True)"
          by simp
        from less.hyps [OF len this]
        have d: "c = hd s" and suf: "suffix t (tl s)"
          and sep: "separatorOutside False chunk' \<longrightarrow> CHR ''/'' \<in> set (tl s)" by simp_all
        from False have ne: "s \<noteq> []" by (simp add: failed'_def)
        have sub: "suffix (tl s) s" by (rule suffix_tl)
        have "separatorOutside False chunk \<longleftrightarrow> c = CHR ''/'' \<or> separatorOutside False chunk'"
          using literal by (simp add: Cons)
        moreover from d ne have "c \<in> set s" by simp
        ultimately have "separatorOutside False chunk \<longrightarrow> CHR ''/'' \<in> set s"
          using sep set_mono_suffix [OF sub] by auto
        moreover from suf sub have "suffix t s" by (rule suffix_order.trans)
        ultimately show ?thesis using False by (simp add: failed'_def)
      qed
    qed
  qed
qed

lemma separatorOutside_scanChunkBody:
  "scanChunkBody inrange p = (chunk, rest) \<Longrightarrow>
   separatorOutside inrange p \<longleftrightarrow> separatorOutside inrange chunk \<or> separatorOutside False rest"
proof (induction "length p" arbitrary: inrange p chunk rest rule: less_induct)
  case less
  show ?case
  proof (cases p)
    case Nil
    with less.prems show ?thesis by simp
  next
    case (Cons c cs)
    show ?thesis
    proof (cases "c = CHR 0x5C")
      case True
      show ?thesis
      proof (cases cs)
        case Nil
        with less.prems Cons True show ?thesis by simp
      next
        case inner: (Cons d ds)
        obtain chunk0 rest0 where b: "scanChunkBody inrange ds = (chunk0, rest0)"
          by (cases "scanChunkBody inrange ds")
        with less.prems Cons True inner have c: "chunk = c # d # chunk0" and r: "rest = rest0"
          by simp_all
        have "length ds < length p" by (simp add: Cons inner)
        from less.hyps [OF this b] show ?thesis
          unfolding Cons inner c r using True by auto
      qed
    next
      case False
      define next_range where "next_range =
        (if c = CHR ''['' then True else if c = CHR '']'' then False else inrange)"
      show ?thesis
      proof (cases "c = CHR ''*'' \<and> \<not> inrange")
        case True
        with less.prems Cons have "chunk = []" and "rest = p" by simp_all
        with True show ?thesis by simp
      next
        case nostar: False
        obtain chunk0 rest0 where b: "scanChunkBody next_range cs = (chunk0, rest0)"
          by (cases "scanChunkBody next_range cs")
        with less.prems Cons False nostar have c: "chunk = c # chunk0" and r: "rest = rest0"
          by (auto simp: next_range_def split: if_splits)
        have "length cs < length p" by (simp add: Cons)
        from less.hyps [OF this b]
        have IH: "separatorOutside next_range cs \<longleftrightarrow>
            separatorOutside next_range chunk0 \<or> separatorOutside False rest0" .
        have step: "separatorOutside inrange (c # xs) \<longleftrightarrow>
            (c = CHR ''/'' \<and> \<not> inrange) \<or> separatorOutside next_range xs" for xs
          using False by (auto simp: next_range_def)
        show ?thesis
          unfolding Cons c r step IH by auto
      qed
    qed
  qed
qed

lemma separatorOutside_stars:
  "separatorOutside False (dropWhile (\<lambda>c. c = CHR ''*'') p) = separatorOutside False p"
  by (induction p) auto

lemma separatorOutside_scanChunk:
  assumes "scanChunk pattern = (star, chunk, rest)"
  shows "separatorOutside False pattern \<longleftrightarrow>
           separatorOutside False chunk \<or> separatorOutside False rest"
proof -
  from assms
  have "scanChunkBody False (dropWhile (\<lambda>c. c = CHR ''*'') pattern) = (chunk, rest)"
    by (auto simp: scanChunk_def Let_def split: prod.splits)
  from separatorOutside_scanChunkBody [OF this] show ?thesis
    by (simp add: separatorOutside_stars)
qed

lemma scanChunk_empty:
  assumes "scanChunk pattern = (star, [], rest)"
  shows "\<not> separatorOutside False pattern"
proof -
  let ?p = "dropWhile (\<lambda>c. c = CHR ''*'') pattern"
  from assms have b: "scanChunkBody False ?p = ([], rest)"
    by (auto simp: scanChunk_def Let_def split: prod.splits)
  have "?p = []"
  proof (cases ?p)
    case Nil
    then show ?thesis .
  next
    case (Cons c cs)
    then have "c \<noteq> CHR ''*''" using hd_dropWhile [of "\<lambda>c. c = CHR ''*''" pattern] by auto
    from scanChunkBody_nonempty [OF b [unfolded Cons] this] show ?thesis by simp
  qed
  with separatorOutside_stars [of pattern] show ?thesis by simp
qed

lemma checkRest_never: "checkRest pattern \<noteq> Inr True"
proof (induction pattern rule: checkRest.induct)
  case (1 pattern)
  show ?case
  proof (cases "pattern = []")
    case True
    then show ?thesis by (simp add: checkRest.simps [of "[]"])
  next
    case False
    obtain star chunk rest where s: "scanChunk pattern = (star, chunk, rest)"
      by (cases "scanChunk pattern")
    show ?thesis
    proof (cases "matchChunk chunk []")
      case (Inl err)
      with False s show ?thesis by (simp add: checkRest.simps [of pattern])
    next
      case (Inr res)
      from "1.IH" [OF False s [symmetric] refl Inr] False s Inr show ?thesis
        by (simp add: checkRest.simps [of pattern])
    qed
  qed
qed

lemma starSearch_Found:
  "starSearch chunk lastChunk name = Found t \<Longrightarrow>
   \<exists>s. suffix s name \<and> matchChunk chunk s = Inr (t, True)"
proof (induction name)
  case Nil
  then show ?case by simp
next
  case (Cons c name)
  from Cons.prems have "(\<exists>s. suffix s name \<and> matchChunk chunk s = Inr (t, True))"
    using Cons.IH
    by (auto split: if_splits sum.splits prod.splits)
  then show ?case by (auto intro: suffix_ConsI)
qed

lemma Match_separator:
  "Match pattern name = Inr True \<Longrightarrow> separatorOutside False pattern \<Longrightarrow>
   CHR ''/'' \<in> set name"
proof (induction "length pattern" arbitrary: pattern name rule: less_induct)
  case less
  from less.prems(2) have ne: "pattern \<noteq> []" by auto
  obtain star chunk rest where s: "scanChunk pattern = (star, chunk, rest)"
    by (cases "scanChunk pattern")
  from scanChunk_shorter [OF s ne] have len: "length rest < length pattern" .
  from scanChunk_empty [of pattern star rest] s less.prems(2) have cne: "chunk \<noteq> []" by auto
  from less.prems(1) ne s cne obtain t ok where m: "matchChunk chunk name = Inr (t, ok)"
    by (cases "matchChunk chunk name") (auto simp: Match.simps [of pattern name])
  from separatorOutside_scanChunk [OF s] less.prems(2)
  have sep: "separatorOutside False chunk \<or> separatorOutside False rest" by simp
  have use: "CHR ''/'' \<in> set name"
    if ok: "matchChunk chunk s' = Inr (t', True)" and suf: "suffix s' name"
      and rec: "Match rest t' = Inr True" for s' t'
  proof -
    from matchChunkFrom_ok [OF ok [unfolded matchChunk_def]]
    have st: "suffix t' s'" and c: "separatorOutside False chunk \<longrightarrow> CHR ''/'' \<in> set s'"
      by simp_all
    from sep show ?thesis
    proof
      assume "separatorOutside False chunk"
      with c suf show ?thesis by (auto dest: set_mono_suffix)
    next
      assume "separatorOutside False rest"
      from less.hyps [OF len rec this] st suf show ?thesis by (auto dest: set_mono_suffix)
    qed
  qed
  show ?case
  proof (cases "ok \<and> (t = [] \<or> rest \<noteq> [])")
    case True
    with less.prems(1) ne s cne m have "Match rest t = Inr True"
      by (simp add: Match.simps [of pattern name])
    with use [of name t] m True show ?thesis by simp
  next
    case False
    show ?thesis
    proof (cases star)
      case True
      show ?thesis
      proof (cases "starSearch chunk (rest = []) name")
        case (Found t')
        with less.prems(1) ne s cne m False True have rec: "Match rest t' = Inr True"
          by (simp add: Match.simps [of pattern name])
        from starSearch_Found [OF Found] obtain s' where "suffix s' name"
          "matchChunk chunk s' = Inr (t', True)" by blast
        with use rec show ?thesis by blast
      next
        case (Failed err)
        with less.prems(1) ne s cne m False True show ?thesis
          by (simp add: Match.simps [of pattern name])
      next
        case NotFound
        with less.prems(1) ne s cne m False True show ?thesis
          by (simp add: Match.simps [of pattern name] checkRest_never)
      qed
    next
      case nostar: False
      with less.prems(1) ne s cne m False show ?thesis
        by (simp add: Match.simps [of pattern name] checkRest_never)
    qed
  qed
qed

subsection \<open>The base name of a collected file\<close>

lemma Base_root:
  assumes "Base path = ''/''"
  shows "path \<noteq> [] \<and> (\<forall>c \<in> set path. c = CHR ''/'')"
proof -
  define stripped where "stripped = dropWhile (\<lambda>c. c = CHR ''/'') (rev path)"
  have t: "CHR ''/'' \<notin> set (takeWhile (\<lambda>c. c \<noteq> CHR ''/'') stripped)"
    by (auto dest: set_takeWhileD)
  from assms have ne: "path \<noteq> []" by (auto simp: Base_def)
  with assms t have e: "takeWhile (\<lambda>c. c \<noteq> CHR ''/'') stripped = []"
    by (auto simp: Base_def Let_def stripped_def split: if_splits)
  have "stripped = []"
  proof (cases stripped)
    case Nil
    then show ?thesis .
  next
    case (Cons c cs)
    then have "c \<noteq> CHR ''/''"
      using hd_dropWhile [of "\<lambda>c. c = CHR ''/''" "rev path"] by (auto simp: stripped_def)
    with e Cons show ?thesis by simp
  qed
  then have "\<forall>c \<in> set (rev path). c = CHR ''/''"
    by (simp add: stripped_def dropWhile_eq_Nil_conv)
  with ne show ?thesis by simp
qed

lemma Split_from_slashes:
  "\<forall>c \<in> set s. c = CHR ''/'' \<Longrightarrow> \<forall>e \<in> set (Split_from ''/'' [] s). e = []"
  by (induction s) auto

lemma namei_empty_elements:
  "\<forall>e \<in> set es. e = [] \<Longrightarrow> namei fs [] es = Inr []"
  by (induction es) simp_all

lemma Stat_root:
  assumes "path \<noteq> []" and "\<forall>c \<in> set path. c = CHR ''/''"
  shows "Stat fs path = Inr (DirNode 493)"
proof -
  from assms have "hd path = CHR ''/''" by (cases path) auto
  moreover from Split_from_slashes [OF assms(2)]
  have "namei fs [] (Split path ''/'') = Inr []"
    by (intro namei_empty_elements) (simp add: Split_def)
  ultimately show ?thesis using assms(1) by (simp add: Stat_def resolve_def)
qed

lemma collected_Base:
  assumes "collectFilesByPatterns glob fs inc = Inr allFiles" and "f \<in> set allFiles"
  shows "CHR ''/'' \<notin> set (Base f)"
proof -
  from collectFilesByPatterns_distinct [OF assms(1)] assms(2)
  obtain mode bytes where s: "Stat fs f = Inr (FileNode mode bytes)" by blast
  have "Base f \<noteq> ''/''"
  proof
    assume "Base f = ''/''"
    from Base_root [OF this] Stat_root [of f fs] s show False by simp
  qed
  with Base_no_separator [of f] show ?thesis by simp
qed

subsection \<open>Exclusion\<close>

lemma shouldExclude_Inl:
  "shouldExclude ps n = Inl e \<Longrightarrow> kind_of e = InvalidPattern"
  by (induction ps) (auto split: sum.splits if_splits)

lemma filterFiles_Inl:
  "filterFiles exc files acc = Inl e \<Longrightarrow> kind_of e = InvalidPattern"
proof (induction files arbitrary: acc)
  case Nil
  then show ?case by simp
next
  case (Cons f files)
  show ?case
  proof (cases "shouldExclude exc (Base f)")
    case (Inl err)
    with Cons.prems have "e = err" by simp
    with shouldExclude_Inl [OF Inl] show ?thesis by simp
  next
    case (Inr b)
    with Cons.prems
    have "filterFiles exc files (if \<not> b then acc @ [f] else acc) = Inl e" by simp
    then show ?thesis by (rule Cons.IH)
  qed
qed

lemma separator_patterns_exclude_nothing:
  assumes c: "collectFilesByPatterns glob fs inc = Inr allFiles"
    and sep: "\<forall>p \<in> set exc. separatorOutsideClass p"
  shows "collectFilesByPatternsWithExclude glob fs inc exc = Inr allFiles \<or>
         (\<exists>e. collectFilesByPatternsWithExclude glob fs inc exc = Inl e \<and>
              kind_of e = InvalidPattern)"
proof (cases "exc = []")
  case True
  with c show ?thesis by (simp add: collectFilesByPatternsWithExclude_def)
next
  case False
  show ?thesis
  proof (cases "filterFiles exc allFiles []")
    case (Inl e)
    from filterFiles_Inl [OF Inl] Inl c False show ?thesis
      by (simp add: collectFilesByPatternsWithExclude_def)
  next
    case (Inr files)
    have "\<not> excludedBy exc f" if f: "f \<in> set allFiles" for f
    proof
      assume "excludedBy exc f"
      then obtain p where p: "p \<in> set exc" and m: "Match p (Base f) = Inr True"
        by (auto simp: excludedBy_def list_ex_iff)
      from sep p have "separatorOutside False p" by (simp add: separatorOutsideClass_def)
      from Match_separator [OF m this] collected_Base [OF c f] show False by simp
    qed
    then have "filter (\<lambda>f. \<not> excludedBy exc f) allFiles = allFiles"
      by (simp add: filter_id_conv)
    with filterFiles_Inr [OF Inr] Inr c False show ?thesis
      by (simp add: collectFilesByPatternsWithExclude_def)
  qed
qed

text \<open>
  C7. With no exclude pattern the result of \<open>collectFilesByPatterns\<close> is returned as it
  is. A successful result is the list of the collected files, in order, without those
  whose base name matches some exclude pattern; and the collection succeeds with that
  result whenever the include collection succeeds and no exclude pattern is malformed.
  The match is on the base name: \<^verbatim>\<open>*.tmp\<close> excludes \<^verbatim>\<open>z.tmp\<close> in any directory. A pattern
  with a separator outside its character classes matches no name without a separator,
  and the base name of a collected file has none: when every exclude pattern has such a
  separator, the collection returns the collected files unchanged, or fails on a
  malformed pattern. \<^verbatim>\<open>sub/*.tmp\<close> is such a pattern and excludes no file at all.
\<close>

theorem collectFilesByPatternsWithExclude_base_name:
  "collectFilesByPatternsWithExclude glob fs inc [] = collectFilesByPatterns glob fs inc \<and>
   (\<forall>files. collectFilesByPatternsWithExclude glob fs inc exc = Inr files \<longrightarrow>
      (\<exists>allFiles. collectFilesByPatterns glob fs inc = Inr allFiles \<and>
         files = filter (\<lambda>f. \<not> excludedBy exc f) allFiles)) \<and>
   (\<forall>allFiles. collectFilesByPatterns glob fs inc = Inr allFiles \<and>
        (\<forall>f \<in> set allFiles. \<forall>p \<in> set exc. \<exists>b. Match p (Base f) = Inr b) \<longrightarrow>
      collectFilesByPatternsWithExclude glob fs inc exc
        = Inr (filter (\<lambda>f. \<not> excludedBy exc f) allFiles)) \<and>
   excludedBy [''*.tmp''] (dir @ ''/z.tmp'') \<and>
   (\<forall>p name. separatorOutsideClass p \<and> CHR ''/'' \<notin> set name \<longrightarrow> Match p name \<noteq> Inr True) \<and>
   (\<forall>allFiles. collectFilesByPatterns glob fs inc = Inr allFiles \<and>
        (\<forall>p \<in> set exc. separatorOutsideClass p) \<longrightarrow>
      collectFilesByPatternsWithExclude glob fs inc exc = Inr allFiles \<or>
      (\<exists>e. collectFilesByPatternsWithExclude glob fs inc exc = Inl e \<and>
           kind_of e = InvalidPattern)) \<and>
   separatorOutsideClass ''sub/*.tmp'' \<and>
   \<not> excludedBy [''sub/*.tmp''] file"
proof (intro conjI allI impI)
  show "collectFilesByPatternsWithExclude glob fs inc [] = collectFilesByPatterns glob fs inc"
    by (simp add: collectFilesByPatternsWithExclude_def split: sum.splits)
next
  fix files
  assume a: "collectFilesByPatternsWithExclude glob fs inc exc = Inr files"
  then obtain allFiles where c: "collectFilesByPatterns glob fs inc = Inr allFiles"
    by (cases "collectFilesByPatterns glob fs inc")
      (auto simp: collectFilesByPatternsWithExclude_def)
  show "\<exists>allFiles. collectFilesByPatterns glob fs inc = Inr allFiles \<and>
         files = filter (\<lambda>f. \<not> excludedBy exc f) allFiles"
  proof (cases "exc = []")
    case True
    with a c have "files = allFiles"
      by (simp add: collectFilesByPatternsWithExclude_def)
    with True c show ?thesis by (simp add: excludedBy_def)
  next
    case False
    with a c have "filterFiles exc allFiles [] = Inr files"
      by (simp add: collectFilesByPatternsWithExclude_def)
    from filterFiles_Inr [OF this] c show ?thesis by simp
  qed
next
  fix allFiles
  assume a: "collectFilesByPatterns glob fs inc = Inr allFiles \<and>
        (\<forall>f \<in> set allFiles. \<forall>p \<in> set exc. \<exists>b. Match p (Base f) = Inr b)"
  show "collectFilesByPatternsWithExclude glob fs inc exc
        = Inr (filter (\<lambda>f. \<not> excludedBy exc f) allFiles)"
  proof (cases "exc = []")
    case True
    with a show ?thesis
      by (simp add: collectFilesByPatternsWithExclude_def excludedBy_def)
  next
    case False
    from a filterFiles_valid [of allFiles exc "[]"]
    have "filterFiles exc allFiles [] = Inr (filter (\<lambda>f. \<not> excludedBy exc f) allFiles)"
      by simp
    with a False show ?thesis
      by (simp add: collectFilesByPatternsWithExclude_def)
  qed
next
  have "Base (dir @ ''/'' @ ''z.tmp'') = ''z.tmp''"
    by (rule Base_file_in_dir) simp_all
  then show "excludedBy [''*.tmp''] (dir @ ''/z.tmp'')"
    by (simp add: excludedBy_def Match_tmp)
next
  show "\<not> excludedBy [''sub/*.tmp''] file"
    by (simp add: excludedBy_def Match_sub_Base)
next
  fix p name
  assume "separatorOutsideClass p \<and> CHR ''/'' \<notin> set name"
  then show "Match p name \<noteq> Inr True"
    using Match_separator [of p name] by (auto simp: separatorOutsideClass_def)
next
  fix allFiles
  assume "collectFilesByPatterns glob fs inc = Inr allFiles \<and>
        (\<forall>p \<in> set exc. separatorOutsideClass p)"
  then show "collectFilesByPatternsWithExclude glob fs inc exc = Inr allFiles \<or>
      (\<exists>e. collectFilesByPatternsWithExclude glob fs inc exc = Inl e \<and>
           kind_of e = InvalidPattern)"
    using separator_patterns_exclude_nothing [of glob fs inc allFiles exc] by blast
next
  show "separatorOutsideClass ''sub/*.tmp''"
    by (simp add: separatorOutsideClass_def)
qed

lemma example_class:
  "matchChunk ''[^/]'' ''b.go'' = Inr (''.go'', True)"
  "matchChunk ''[^/]'' ''a.txt'' = Inr (''.txt'', True)"
  by (simp_all add: matchChunk_def matchChunkFrom.simps [of _ "''[^/]''"]
      matchChunkFrom.simps [of _ "[]"] classRanges.simps [of _ "''/]''"]
      classRanges.simps [of _ "'']''"] getEsc_def DecodeRuneInString_def RuneError_def Let_def)

lemma example_Match_rest:
  "Match ''*.go'' ''.go'' = Inr True"
  "Match ''*.go'' ''.txt'' = Inr False"
  by (simp_all add: Match.simps [of "''*.go''"] Match.simps [of "[]"] checkRest.simps [of "[]"]
      scanChunk_def matchChunk_def matchChunkFrom_literal)

lemma example_Match_class:
  "Match ''[^/]*.go'' ''b.go'' = Inr True"
  "Match ''[^/]*.go'' ''a.txt'' = Inr False"
proof -
  have s: "scanChunk ''[^/]*.go'' = (False, ''[^/]'', ''*.go'')"
    by (simp add: scanChunk_def)
  show "Match ''[^/]*.go'' ''b.go'' = Inr True"
    by (simp add: Match.simps [of "''[^/]*.go''"] s example_class example_Match_rest)
  show "Match ''[^/]*.go'' ''a.txt'' = Inr False"
    by (simp add: Match.simps [of "''[^/]*.go''"] s example_class example_Match_rest)
qed

theorem collectFilesByPatternsWithExclude_base_name_witness:
  "collectFilesByPatterns (\<lambda>fs p. Inr []) exampleFS [''**'']
     = Inr [''/w/a.txt'', ''/w/sub/b.go''] \<and>
   Match ''*.go'' (Base ''/w/a.txt'') = Inr False \<and>
   Match ''*.go'' (Base ''/w/sub/b.go'') = Inr True \<and>
   collectFilesByPatternsWithExclude (\<lambda>fs p. Inr []) exampleFS [''**''] [''*.go'']
     = Inr [''/w/a.txt''] \<and>
   separatorOutsideClass ''sub/*.tmp'' \<and> CHR ''/'' \<notin> set ''z.tmp'' \<and>
   Match ''sub/*.tmp'' ''z.tmp'' = Inr False \<and>
   collectFilesByPatternsWithExclude (\<lambda>fs p. Inr []) exampleFS [''**''] [''sub/*.tmp'']
     = Inr [''/w/a.txt'', ''/w/sub/b.go'']"
proof -
  have m: "Match ''*.go'' (Base ''/w/a.txt'') = Inr False"
    "Match ''*.go'' (Base ''/w/sub/b.go'') = Inr True"
    by (simp_all add: example_Base example_Match)
  note c = example_collect [of "\<lambda>fs p. Inr []"]
  have v: "\<forall>f \<in> set [''/w/a.txt'', ''/w/sub/b.go'']. \<forall>p \<in> set [''*.go''].
      \<exists>b. Match p (Base f) = Inr b"
    by (auto simp: example_Base example_Match)
  have f: "filter (\<lambda>f. \<not> excludedBy [''*.go''] f) [''/w/a.txt'', ''/w/sub/b.go'']
      = [''/w/a.txt'']"
    by (simp add: excludedBy_def example_Base example_Match)
  from collectFilesByPatternsWithExclude_base_name
    [where glob = "\<lambda>fs p. Inr []" and fs = exampleFS and inc = "[''**'']"
       and exc = "[''*.go'']"] c v
  have "collectFilesByPatternsWithExclude (\<lambda>fs p. Inr []) exampleFS [''**''] [''*.go'']
     = Inr (filter (\<lambda>f. \<not> excludedBy [''*.go''] f) [''/w/a.txt'', ''/w/sub/b.go''])"
    by blast
  with f have go: "collectFilesByPatternsWithExclude (\<lambda>fs p. Inr []) exampleFS [''**'']
      [''*.go''] = Inr [''/w/a.txt'']" by simp
  note t = collectFilesByPatternsWithExclude_base_name
    [where glob = "\<lambda>fs p. Inr []" and fs = exampleFS and inc = "[''**'']"
       and exc = "[''sub/*.tmp'']"]
  from t have s: "separatorOutsideClass ''sub/*.tmp''" by blast
  have z: "Match ''sub/*.tmp'' ''z.tmp'' = Inr False"
    by (rule Match_sub_no_prefix) simp
  have v': "\<forall>f \<in> set [''/w/a.txt'', ''/w/sub/b.go'']. \<forall>p \<in> set [''sub/*.tmp''].
      \<exists>b. Match p (Base f) = Inr b"
  proof (intro ballI)
    fix f p assume "p \<in> set [''sub/*.tmp'']"
    then have "p = ''sub/*.tmp''" by simp
    then show "\<exists>b. Match p (Base f) = Inr b" using Match_sub_Base [of f] by blast
  qed
  from t c v'
  have "collectFilesByPatternsWithExclude (\<lambda>fs p. Inr []) exampleFS [''**''] [''sub/*.tmp'']
     = Inr (filter (\<lambda>f. \<not> excludedBy [''sub/*.tmp''] f) [''/w/a.txt'', ''/w/sub/b.go''])"
    by blast
  moreover from t s c
  have "collectFilesByPatternsWithExclude (\<lambda>fs p. Inr []) exampleFS [''**''] [''sub/*.tmp'']
      = Inr [''/w/a.txt'', ''/w/sub/b.go''] \<or>
    (\<exists>e. collectFilesByPatternsWithExclude (\<lambda>fs p. Inr []) exampleFS [''**'']
          [''sub/*.tmp''] = Inl e \<and> kind_of e = InvalidPattern)"
    by simp
  ultimately
  have tmp: "collectFilesByPatternsWithExclude (\<lambda>fs p. Inr []) exampleFS [''**'']
      [''sub/*.tmp''] = Inr [''/w/a.txt'', ''/w/sub/b.go'']" by auto
  from c m go s z tmp show ?thesis by simp
qed

theorem collectFilesByPatternsWithExclude_base_name_counterexample:
  "CHR ''/'' \<in> set ''[^/]*.go'' \<and>
   Match ''[^/]*.go'' (Base ''/w/sub/b.go'') = Inr True \<and>
   collectFilesByPatterns (\<lambda>fs p. Inr []) exampleFS [''**'']
     = Inr [''/w/a.txt'', ''/w/sub/b.go''] \<and>
   collectFilesByPatternsWithExclude (\<lambda>fs p. Inr []) exampleFS [''**''] [''[^/]*.go'']
     = Inr [''/w/a.txt'']"
  by (simp add: collectFilesByPatternsWithExclude_def example_collect example_Base
      example_Match_class)

end
